theory Spec2Isabelle
  imports Main "HOL-Library.Word"
begin

unbundle bit_operations_syntax

section \<open>Machine types\<close>

text \<open>
  The program is C++ for an LP64 target: \<open>std::size_t\<close>, \<open>std::uintptr_t\<close> and
  \<open>std::uint64_t\<close> are 64-bit unsigned integers whose arithmetic wraps around, a byte is
  an 8-bit word.  Block ids and the id counter are C++ \<open>int\<close>: 32-bit words read in two's
  complement (\<open>sint\<close>, and \<open><s\<close> for the signed comparison).  The increment of the id
  counter wraps around from \<open>2^31 - 1\<close> to \<open>-2^31\<close>, as the compiled program does (the C++
  standard leaves the signed overflow undefined).
\<close>

type_synonym size_t = "64 word"
type_synonym uintptr_t = "64 word"
type_synonym uint64_t = "64 word"
type_synonym uint8_t = "8 word"
type_synonym c_int = "32 word"

section \<open>cache.cpp: one cache level\<close>

record CacheLine =
  valid :: bool
  tag :: uintptr_t
  freq :: uint64_t
  last_used :: uint64_t

record CacheLevelStats =
  accesses :: uint64_t
  hits :: uint64_t
  misses :: uint64_t
  miss_penalty_accum :: uint64_t

record CacheLevel =
  m_size_bytes :: size_t
  m_block_size :: size_t
  m_associativity :: size_t
  m_latency :: size_t
  m_num_sets :: size_t
  m_level_index :: size_t
  m_sets :: "CacheLine list list"
  m_stats :: CacheLevelStats

text \<open>The default member initialisers of \<open>CacheLine\<close> and \<open>CacheLevelStats\<close>.\<close>

definition CacheLine_default :: CacheLine where
  "CacheLine_default = \<lparr>valid = False, tag = 0, freq = 0, last_used = 0\<rparr>"

definition CacheLevelStats_default :: CacheLevelStats where
  "CacheLevelStats_default = \<lparr>accesses = 0, hits = 0, misses = 0, miss_penalty_accum = 0\<rparr>"

text \<open>
  The constructor \<open>CacheLevel::CacheLevel\<close>: the member initialisers first, then the body
  in its statement order.  \<open>m_sets.resize(m_num_sets, std::vector<CacheLine>(m_associativity))\<close>
  gives \<open>m_num_sets\<close> rows of \<open>m_associativity\<close> default lines.
\<close>

definition CacheLevel_new :: "size_t \<Rightarrow> size_t \<Rightarrow> size_t \<Rightarrow> size_t \<Rightarrow> size_t \<Rightarrow> CacheLevel" where
  "CacheLevel_new size_bytes block_size associativity access_latency_cycles level_index =
    (let bs0 = (if block_size \<noteq> 0 then block_size else 1);
         as0 = (if associativity \<noteq> 0 then associativity else 1);
         lat = (if access_latency_cycles \<noteq> 0 then access_latency_cycles else 1);
         bs1 = (if bs0 = 0 then 1 else bs0);
         nl0 = size_bytes div bs1;
         num_lines = (if nl0 = 0 then 1 else nl0);
         as1 = (if as0 = 0 then 1 else as0);
         as2 = (if as1 > num_lines then num_lines else as1);
         ns0 = num_lines div as2;
         num_sets = (if ns0 = 0 then 1 else ns0);
         assoc = (if ns0 = 0 then num_lines else as2)
     in \<lparr>m_size_bytes = size_bytes, m_block_size = bs1, m_associativity = assoc,
         m_latency = lat, m_num_sets = num_sets, m_level_index = level_index,
         m_sets = replicate (unat num_sets) (replicate (unat assoc) CacheLine_default),
         m_stats = CacheLevelStats_default\<rparr>)"

text \<open>\<open>compute_index_tag\<close>: the pair (set index, tag) of an address.\<close>

definition compute_index_tag :: "CacheLevel \<Rightarrow> uintptr_t \<Rightarrow> size_t \<times> uintptr_t" where
  "compute_index_tag L a =
    (let block_addr = a div m_block_size L
     in (block_addr mod m_num_sets L, block_addr div m_num_sets L))"

text \<open>
  The range-for of \<open>CacheLevel::access\<close> over one set: the first valid line with the tag is
  bumped and the scan returns true; the scan returns false at the end of the set.
\<close>

fun access_set :: "CacheLine list \<Rightarrow> uintptr_t \<Rightarrow> uint64_t \<Rightarrow> bool \<times> CacheLine list" where
  "access_set [] tg ts = (False, [])"
| "access_set (line # rest) tg ts =
    (if valid line \<and> tag line = tg
     then (True, line\<lparr>freq := freq line + 1, last_used := ts\<rparr> # rest)
     else (let (h, rest') = access_set rest tg ts in (h, line # rest')))"

definition CacheLevel_access :: "CacheLevel \<Rightarrow> uintptr_t \<Rightarrow> uint64_t \<Rightarrow> bool \<times> CacheLevel" where
  "CacheLevel_access L a ts =
    (let (set_idx, tg) = compute_index_tag L a;
         (h, set') = access_set (m_sets L ! unat set_idx) tg ts
     in (h, L\<lparr>m_sets := (m_sets L)[unat set_idx := set']\<rparr>))"

text \<open>
  \<open>CacheLevel::insert\<close>.  The first loop fills the first invalid line and returns; \<open>None\<close>
  below means that the loop ended without finding one.
\<close>

definition fresh_line :: "uintptr_t \<Rightarrow> uint64_t \<Rightarrow> CacheLine" where
  "fresh_line tg ts = \<lparr>valid = True, tag = tg, freq = 1, last_used = ts\<rparr>"

fun fill_invalid :: "CacheLine list \<Rightarrow> uintptr_t \<Rightarrow> uint64_t \<Rightarrow> CacheLine list option" where
  "fill_invalid [] tg ts = None"
| "fill_invalid (line # rest) tg ts =
    (if \<not> valid line then Some (fresh_line tg ts # rest)
     else map_option (\<lambda>rest'. line # rest') (fill_invalid rest tg ts))"

text \<open>The victim loop: \<open>victim_idx\<close> starts at 0 and \<open>i\<close> runs from 1 to \<open>set.size() - 1\<close>.\<close>

definition victim_step :: "CacheLine list \<Rightarrow> nat \<Rightarrow> nat \<Rightarrow> nat" where
  "victim_step st i victim_idx =
    (let cur = st ! i; vict = st ! victim_idx
     in if freq cur < freq vict then i
        else if freq cur = freq vict \<and> last_used cur < last_used vict then i
        else victim_idx)"

definition choose_victim :: "CacheLine list \<Rightarrow> nat" where
  "choose_victim st = fold (victim_step st) [1..<length st] 0"

definition insert_set :: "CacheLine list \<Rightarrow> uintptr_t \<Rightarrow> uint64_t \<Rightarrow> CacheLine list" where
  "insert_set st tg ts =
    (case fill_invalid st tg ts of
       Some st' \<Rightarrow> st'
     | None \<Rightarrow> st[choose_victim st := fresh_line tg ts])"

definition CacheLevel_insert :: "CacheLevel \<Rightarrow> uintptr_t \<Rightarrow> uint64_t \<Rightarrow> CacheLevel" where
  "CacheLevel_insert L a ts =
    (let (set_idx, tg) = compute_index_tag L a
     in L\<lparr>m_sets := (m_sets L)[unat set_idx := insert_set (m_sets L ! unat set_idx) tg ts]\<rparr>)"

text \<open>
  The cache levels the program can hold: every level is built by the constructor and
  afterwards only changed by lookups and inserts.
\<close>

inductive level_reachable :: "CacheLevel \<Rightarrow> bool" where
  lr_new: "level_reachable (CacheLevel_new sb bs as lat idx)"
| lr_access: "level_reachable L \<Longrightarrow> level_reachable (snd (CacheLevel_access L a ts))"
| lr_insert: "level_reachable L \<Longrightarrow> level_reachable (CacheLevel_insert L a ts)"
| lr_stats: "level_reachable L \<Longrightarrow> level_reachable (L\<lparr>m_stats := st\<rparr>)"

text \<open>The shape the constructor establishes and the operations keep.\<close>

definition level_wf :: "CacheLevel \<Rightarrow> bool" where
  "level_wf L \<longleftrightarrow>
     m_block_size L \<noteq> 0 \<and> m_num_sets L \<noteq> 0 \<and> m_associativity L \<noteq> 0 \<and>
     length (m_sets L) = unat (m_num_sets L) \<and>
     (\<forall>st \<in> set (m_sets L). length st = unat (m_associativity L))"

section \<open>cache.cpp: the multi-level controller\<close>

record MultiLevelCache =
  m_levels :: "CacheLevel list"
  m_memory_latency :: size_t
  m_timestamp :: uint64_t
  m_total_accesses :: uint64_t
  m_total_hits :: uint64_t
  m_total_misses :: uint64_t
  m_total_penalty :: uint64_t

text \<open>The default-constructed controller (the static \<open>g_cache\<close> before any call).\<close>

definition MultiLevelCache_default :: MultiLevelCache where
  "MultiLevelCache_default =
    \<lparr>m_levels = [], m_memory_latency = 100, m_timestamp = 0, m_total_accesses = 0,
     m_total_hits = 0, m_total_misses = 0, m_total_penalty = 0\<rparr>"

definition reset :: "MultiLevelCache \<Rightarrow> MultiLevelCache" where
  "reset c = c\<lparr>m_levels := [], m_memory_latency := 100, m_timestamp := 0,
     m_total_accesses := 0, m_total_hits := 0, m_total_misses := 0, m_total_penalty := 0\<rparr>"

definition set_memory_latency :: "MultiLevelCache \<Rightarrow> size_t \<Rightarrow> MultiLevelCache" where
  "set_memory_latency c latency_cycles =
     c\<lparr>m_memory_latency := (if latency_cycles \<noteq> 0 then latency_cycles else 1)\<rparr>"

definition add_level :: "MultiLevelCache \<Rightarrow> size_t \<Rightarrow> size_t \<Rightarrow> size_t \<Rightarrow> size_t \<Rightarrow> MultiLevelCache" where
  "add_level c size_bytes block_size associativity access_latency_cycles =
    (let level_index = of_nat (length (m_levels c))
     in c\<lparr>m_levels := m_levels c @
            [CacheLevel_new size_bytes block_size associativity access_latency_cycles level_index]\<rparr>)"

definition level_count :: "MultiLevelCache \<Rightarrow> size_t" where
  "level_count c = of_nat (length (m_levels c))"

definition configure_level ::
  "MultiLevelCache \<Rightarrow> size_t \<Rightarrow> size_t \<Rightarrow> size_t \<Rightarrow> size_t \<Rightarrow> size_t \<Rightarrow> MultiLevelCache" where
  "configure_level c level_index size_bytes block_size associativity access_latency_cycles =
    (if unat level_index \<ge> length (m_levels c) then c
     else c\<lparr>m_levels := (m_levels c)[unat level_index :=
            CacheLevel_new size_bytes block_size associativity access_latency_cycles level_index]\<rparr>)"

text \<open>
  \<open>MultiLevelCache::access\<close>, first loop.  The function walks the levels from index \<open>i\<close>
  on; it returns the levels with their counters and lines updated, \<open>total_penalty\<close>,
  \<open>hit_any\<close>, \<open>level_hit\<close> and the miss records.  A hit ends the walk (\<open>break\<close>), so the
  levels behind the hit level are returned as they were.  Level indices are cast to
  \<open>int\<close> in the source; the cast is exact for fewer than \<open>2^31\<close> levels.
\<close>

type_synonym MissRecord = "int \<times> size_t"

definition bump_accesses :: "CacheLevel \<Rightarrow> CacheLevel" where
  "bump_accesses L = L\<lparr>m_stats := (m_stats L)\<lparr>accesses := accesses (m_stats L) + 1\<rparr>\<rparr>"

definition bump_hits :: "CacheLevel \<Rightarrow> CacheLevel" where
  "bump_hits L = L\<lparr>m_stats := (m_stats L)\<lparr>hits := hits (m_stats L) + 1\<rparr>\<rparr>"

definition bump_misses :: "CacheLevel \<Rightarrow> CacheLevel" where
  "bump_misses L = L\<lparr>m_stats := (m_stats L)\<lparr>misses := misses (m_stats L) + 1\<rparr>\<rparr>"

fun walk_levels ::
  "CacheLevel list \<Rightarrow> nat \<Rightarrow> uintptr_t \<Rightarrow> uint64_t \<Rightarrow> size_t \<Rightarrow> MissRecord list \<Rightarrow>
   CacheLevel list \<times> size_t \<times> bool \<times> int \<times> MissRecord list" where
  "walk_levels [] i a ts total_penalty recs = ([], total_penalty, False, -1, recs)"
| "walk_levels (lvl # rest) i a ts total_penalty recs =
    (let total_penalty' = total_penalty + m_latency lvl;
         (h, lvl') = CacheLevel_access (bump_accesses lvl) a ts
     in if h then (bump_hits lvl' # rest, total_penalty', True, int i, recs)
        else (let (rest', tp, hit_any, level_hit, recs') =
                    walk_levels rest (Suc i) a ts total_penalty' (recs @ [(int i, total_penalty')])
              in (bump_misses lvl' # rest', tp, hit_any, level_hit, recs')))"

text \<open>The fill loop \<open>for (int i = 0; i <= fill_upto && i >= 0; ++i)\<close>.\<close>

definition fill_levels :: "CacheLevel list \<Rightarrow> int \<Rightarrow> uintptr_t \<Rightarrow> uint64_t \<Rightarrow> CacheLevel list" where
  "fill_levels ls fill_upto a ts =
     fold (\<lambda>i ls'. ls'[i := CacheLevel_insert (ls' ! i) a ts]) [0..<nat (fill_upto + 1)] ls"

text \<open>The loop over the miss records.\<close>

definition attribute_penalty :: "size_t \<Rightarrow> MissRecord \<Rightarrow> CacheLevel list \<Rightarrow> CacheLevel list" where
  "attribute_penalty total_penalty rec ls =
    (if fst rec \<ge> 0 \<and> nat (fst rec) < length ls
     then (let extra_penalty = (if total_penalty > snd rec then total_penalty - snd rec else 0);
               L = ls ! nat (fst rec)
           in ls[nat (fst rec) := L\<lparr>m_stats := (m_stats L)\<lparr>miss_penalty_accum :=
                                     miss_penalty_accum (m_stats L) + extra_penalty\<rparr>\<rparr>])
     else ls)"

definition MultiLevelCache_access :: "MultiLevelCache \<Rightarrow> uintptr_t \<Rightarrow> bool \<Rightarrow> MultiLevelCache" where
  "MultiLevelCache_access c a is_write =
    (if m_levels c = [] then c
     else
       (let ts = m_timestamp c + 1;
            n = int (length (m_levels c));
            (ls1, tp1, hit_any, lh1, recs) = walk_levels (m_levels c) 0 a ts 0 [];
            total_penalty = (if \<not> hit_any then tp1 + m_memory_latency c else tp1);
            level_hit = (if \<not> hit_any then n else lh1);
            fill_upto = (if level_hit = n then n - 1 else level_hit);
            ls2 = fill_levels ls1 fill_upto a ts;
            ls3 = fold (attribute_penalty total_penalty) recs ls2
        in c\<lparr>m_levels := ls3,
              m_timestamp := ts,
              m_total_accesses := m_total_accesses c + 1,
              m_total_hits := (if hit_any then m_total_hits c + 1 else m_total_hits c),
              m_total_misses := (if \<not> hit_any then m_total_misses c + 1 else m_total_misses c),
              m_total_penalty := m_total_penalty c + total_penalty\<rparr>))"

text \<open>The global API over the static \<open>g_cache\<close>.\<close>

definition cache_init_default :: "MultiLevelCache \<Rightarrow> MultiLevelCache" where
  "cache_init_default c =
     set_memory_latency (add_level (add_level (reset c) (4 * 1024) 64 4 1) (32 * 1024) 64 8 8) 100"

definition cache_access :: "MultiLevelCache \<Rightarrow> uintptr_t \<Rightarrow> bool \<Rightarrow> MultiLevelCache" where
  "cache_access c a is_write = MultiLevelCache_access c a is_write"




section \<open>allocator.cpp: the block list\<close>

text \<open>
  The heap is the byte array \<open>g_heap\<close> of \<open>HEAP_SIZE\<close> bytes (mainn.cpp).  Positions in
  it are byte offsets from \<open>g_heap\<close>, 64-bit words as the pointers they stand for, so that
  pointer arithmetic is word arithmetic.  \<open>sizeof(BlockHeader)\<close> is 56 and
  \<open>alignof(std::max_align_t)\<close> is 16 on the LP64 targets the program is built for.
\<close>

definition HEAP_SIZE :: size_t where
  "HEAP_SIZE = 64 * 1024"

definition sizeof_BlockHeader :: size_t where
  "sizeof_BlockHeader = 56"

definition max_align :: size_t where
  "max_align = 16"

definition PATTERN_UNINITIALIZED :: uint8_t where
  "PATTERN_UNINITIALIZED = 0xCD"

definition PATTERN_FREED :: uint8_t where
  "PATTERN_FREED = 0xDD"

text \<open>
  A block header.  \<open>addr\<close> is the position of the header itself (the value of the
  \<open>BlockHeader *\<close>), \<open>start\<close> the position of the user area.  The \<open>next\<close> pointer is the
  order of the block list: the list from \<open>g_head\<close> is a HOL list of headers, and the empty
  list is \<open>g_head == nullptr\<close>.  The header fields are kept apart from the payload bytes:
  \<open>g_heap\<close> below holds the bytes as the payload accesses see them, and a store through a
  payload pointer does not change a header field of the model.
\<close>

record BlockHeader =
  addr :: size_t
  id_blk :: c_int
  start :: size_t
  size_blk :: size_t
  requested_size :: size_t
  free :: bool
  cacheable :: bool
  cache_hits :: size_t

datatype FitStrategy = First | Best | Worst

definition parse_strategy :: "string \<Rightarrow> FitStrategy" where
  "parse_strategy s =
    (if s = ''first'' \<or> s = ''first_fit'' \<or> s = ''first-fit'' \<or> s = ''firstfit'' then First
     else if s = ''best'' \<or> s = ''best_fit'' \<or> s = ''best-fit'' \<or> s = ''bestfit'' then Best
     else if s = ''worst'' \<or> s = ''worst_fit'' \<or> s = ''worst-fit'' \<or> s = ''worstfit'' then Worst
     else First)"

definition align_size :: "size_t \<Rightarrow> size_t" where
  "align_size sz = (sz + max_align - 1) AND NOT (max_align - 1)"

text \<open>
  \<open>find_fit\<close>.  The result is the index of the chosen block in the list (the pointer the
  source returns), \<open>None\<close> for \<open>nullptr\<close>.  The loop carries the candidate as the pair of
  its index and its header; \<open>i\<close> is the index of \<open>curr\<close>, written \<open>cur\<close>.
\<close>

fun find_fit_loop ::
  "BlockHeader list \<Rightarrow> nat \<Rightarrow> size_t \<Rightarrow> FitStrategy \<Rightarrow> (nat \<times> BlockHeader) option \<Rightarrow>
   (nat \<times> BlockHeader) option" where
  "find_fit_loop [] i sz strategy candidate = candidate"
| "find_fit_loop (cur # rest) i sz strategy candidate =
    (if \<not> free cur \<or> size_blk cur < sz then find_fit_loop rest (Suc i) sz strategy candidate
     else if strategy = First then Some (i, cur)
     else (case candidate of
             None \<Rightarrow> find_fit_loop rest (Suc i) sz strategy (Some (i, cur))
           | Some (ci, cand) \<Rightarrow>
               if strategy = Best
               then (if size_blk cur < size_blk cand
                     then find_fit_loop rest (Suc i) sz strategy (Some (i, cur))
                     else find_fit_loop rest (Suc i) sz strategy candidate)
               else (if size_blk cur > size_blk cand
                     then find_fit_loop rest (Suc i) sz strategy (Some (i, cur))
                     else find_fit_loop rest (Suc i) sz strategy candidate)))"

definition find_fit :: "BlockHeader list \<Rightarrow> size_t \<Rightarrow> FitStrategy \<Rightarrow> nat option" where
  "find_fit head sz strategy = map_option fst (find_fit_loop head 0 sz strategy None)"

text \<open>A block the fit search considers: free and large enough.\<close>

definition fits :: "BlockHeader list \<Rightarrow> size_t \<Rightarrow> nat \<Rightarrow> bool" where
  "fits bs sz j \<longleftrightarrow> j < length bs \<and> free (bs ! j) \<and> sz \<le> size_blk (bs ! j)"

fun find_block_by_id :: "BlockHeader list \<Rightarrow> c_int \<Rightarrow> nat option" where
  "find_block_by_id [] i = None"
| "find_block_by_id (hdr # rest) i =
    (if \<not> free hdr \<and> id_blk hdr = i then Some 0
     else map_option Suc (find_block_by_id rest i))"

text \<open>
  \<open>split_block_if_needed\<close> on the block at index \<open>k\<close>.  The new header lies at
  \<open>base + sizeof(BlockHeader) + size\<close> and is linked between the block and its old
  successor.
\<close>

definition split_block_if_needed :: "BlockHeader list \<Rightarrow> nat \<Rightarrow> size_t \<Rightarrow> BlockHeader list" where
  "split_block_if_needed bs k sz =
    (let block = bs ! k;
         remaining = size_blk block - sz
     in if remaining \<le> sizeof_BlockHeader + 8 then bs
        else
          (let new_addr = addr block + sizeof_BlockHeader + sz;
               new_block = \<lparr>addr = new_addr, id_blk = -1,
                            start = new_addr + sizeof_BlockHeader,
                            size_blk = remaining - sizeof_BlockHeader,
                            requested_size = 0, free = True, cacheable = False,
                            cache_hits = 0\<rparr>
           in take k bs @ [block\<lparr>size_blk := sz\<rparr>, new_block] @ drop (Suc k) bs))"

text \<open>
  \<open>coalesce_free_blocks\<close>: after a merge the loop looks at the same \<open>curr\<close> again
  (\<open>continue\<close>), otherwise it moves on.
\<close>

fun coalesce_free_blocks :: "BlockHeader list \<Rightarrow> BlockHeader list" where
  "coalesce_free_blocks [] = []"
| "coalesce_free_blocks [cur] = [cur]"
| "coalesce_free_blocks (cur # nxt # rest) =
    (if free cur \<and> free nxt \<and> addr cur + sizeof_BlockHeader + size_blk cur = addr nxt
     then coalesce_free_blocks
            (cur\<lparr>size_blk := size_blk cur + (sizeof_BlockHeader + size_blk nxt),
                  requested_size := 0\<rparr> # rest)
     else cur # coalesce_free_blocks (nxt # rest))"

text \<open>\<open>std::memset(p, v, n)\<close> on the heap bytes: the \<open>n\<close> bytes from \<open>p\<close> on become \<open>v\<close>.\<close>

definition memset :: "(size_t \<Rightarrow> uint8_t) \<Rightarrow> size_t \<Rightarrow> uint8_t \<Rightarrow> size_t \<Rightarrow> (size_t \<Rightarrow> uint8_t)" where
  "memset h p v n = (\<lambda>a. if a - p < n then v else h a)"

section \<open>allocator.cpp: the facade\<close>

text \<open>
  The globals of allocator.cpp and the static \<open>g_cache\<close> of cache.cpp.  \<open>g_heap_addr\<close> is
  the address of \<open>g_heap\<close> in the address space, which the linker fixes; cache accesses use
  it because they take real pointers.  \<open>g_heap\<close> maps every 64-bit offset to a byte; the
  array of the program has the offsets below \<open>HEAP_SIZE\<close>, and an access at another offset
  is undefined behaviour in the source.
\<close>

record allocator_state =
  g_heap :: "size_t \<Rightarrow> uint8_t"
  g_heap_addr :: uintptr_t
  g_head :: "BlockHeader list"
  g_next_id :: c_int
  g_cache_initialized :: bool
  g_alloc_requests :: size_t
  g_alloc_success :: size_t
  g_alloc_fail :: size_t
  g_current_strategy :: FitStrategy
  g_cache :: MultiLevelCache

text \<open>The state at program start: static storage is zero-initialised.\<close>

definition initial_state :: "uintptr_t \<Rightarrow> allocator_state" where
  "initial_state base =
    \<lparr>g_heap = (\<lambda>_. 0), g_heap_addr = base, g_head = [], g_next_id = 0,
     g_cache_initialized = False, g_alloc_requests = 0, g_alloc_success = 0,
     g_alloc_fail = 0, g_current_strategy = First, g_cache = MultiLevelCache_default\<rparr>"

definition allocator_init :: "allocator_state \<Rightarrow> allocator_state" where
  "allocator_init s =
    (if g_head s \<noteq> [] then s
     else
       (let s1 = (if \<not> g_cache_initialized s
                  then s\<lparr>g_cache := cache_init_default (g_cache s), g_cache_initialized := True\<rparr>
                  else s)
        in s1\<lparr>g_head := [\<lparr>addr = 0, id_blk = -1, start = 0 + sizeof_BlockHeader,
                            size_blk = HEAP_SIZE - sizeof_BlockHeader, requested_size = 0,
                            free = True, cacheable = False, cache_hits = 0\<rparr>]\<rparr>))"

definition allocator_malloc :: "size_t \<Rightarrow> FitStrategy \<Rightarrow> allocator_state \<Rightarrow> c_int \<times> allocator_state" where
  "allocator_malloc sz strategy s0 =
    (let s = allocator_init s0
     in if sz = 0 then (-1, s)
        else
          (let s1 = s\<lparr>g_alloc_requests := g_alloc_requests s + 1\<rparr>;
               aligned_size = align_size sz
           in case find_fit (g_head s1) aligned_size strategy of
                None \<Rightarrow> (-1, s1\<lparr>g_alloc_fail := g_alloc_fail s1 + 1\<rparr>)
              | Some k \<Rightarrow>
                  (let bs = split_block_if_needed (g_head s1) k aligned_size;
                       b = bs ! k;
                       block = b\<lparr>free := False, id_blk := g_next_id s1, cacheable := True,
                                 cache_hits := 0, start := addr b + sizeof_BlockHeader,
                                 requested_size := sz\<rparr>;
                       s2 = s1\<lparr>g_head := bs[k := block],
                               g_next_id := g_next_id s1 + 1,
                               g_heap := memset (g_heap s1) (start block) PATTERN_UNINITIALIZED
                                           (size_blk block),
                               g_alloc_success := g_alloc_success s1 + 1\<rparr>;
                       offset = start block
                   in if offset <s 0 \<or> offset \<ge> HEAP_SIZE then (-1, s2)
                      else (id_blk block, s2))))"

definition allocator_malloc_str :: "size_t \<Rightarrow> string \<Rightarrow> allocator_state \<Rightarrow> c_int \<times> allocator_state" where
  "allocator_malloc_str sz strategy s = allocator_malloc sz (parse_strategy strategy) s"

definition allocator_malloc_default :: "size_t \<Rightarrow> allocator_state \<Rightarrow> c_int \<times> allocator_state" where
  "allocator_malloc_default sz s = allocator_malloc sz (g_current_strategy s) s"

definition allocator_set_strategy :: "FitStrategy \<Rightarrow> allocator_state \<Rightarrow> allocator_state" where
  "allocator_set_strategy strategy s = s\<lparr>g_current_strategy := strategy\<rparr>"

definition allocator_free :: "c_int \<Rightarrow> allocator_state \<Rightarrow> allocator_state" where
  "allocator_free i s0 =
    (let s = allocator_init s0
     in if i <s 0 then s
        else (case find_block_by_id (g_head s) i of
                None \<Rightarrow> s
              | Some k \<Rightarrow>
                  (let hdr = (g_head s ! k)\<lparr>free := True, id_blk := -1, cacheable := False,
                                             cache_hits := 0\<rparr>
                   in s\<lparr>g_heap := memset (g_heap s) (start hdr) PATTERN_FREED (size_blk hdr),
                         g_head := coalesce_free_blocks ((g_head s)[k := hdr])\<rparr>)))"

definition allocator_set_block_cacheable :: "c_int \<Rightarrow> bool \<Rightarrow> allocator_state \<Rightarrow> allocator_state" where
  "allocator_set_block_cacheable i c s0 =
    (let s = allocator_init s0
     in if i <s 0 then s
        else (case find_block_by_id (g_head s) i of
                None \<Rightarrow> s
              | Some k \<Rightarrow> s\<lparr>g_head := (g_head s)[k := (g_head s ! k)\<lparr>cacheable := c\<rparr>]\<rparr>))"

definition allocator_access :: "c_int \<Rightarrow> bool \<Rightarrow> allocator_state \<Rightarrow> allocator_state" where
  "allocator_access i is_write s0 =
    (let s = allocator_init s0
     in if i <s 0 then s
        else (case find_block_by_id (g_head s) i of
                None \<Rightarrow> s
              | Some k \<Rightarrow>
                  (let hdr = g_head s ! k
                   in if \<not> cacheable hdr then s
                      else s\<lparr>g_cache := cache_access (g_cache s) (g_heap_addr s + start hdr) is_write,
                             g_head := (g_head s)[k := hdr\<lparr>cache_hits := cache_hits hdr + 1\<rparr>]\<rparr>)))"

text \<open>
  \<open>allocator_read\<close>.  The caller's buffer is a list of bytes, \<open>None\<close> for a null pointer.
  One step of the loop reads the byte, simulates the cache access at its real address,
  records garbage and stores the byte into the buffer.  The result is the returned flag,
  the buffer afterwards and the new state.  A store behind the end of the caller's buffer
  is undefined behaviour in the source; the list update leaves the list as it is there,
  and the statements about reads assume a buffer of at least \<open>size\<close> bytes.
\<close>

definition read_step ::
  "(size_t \<Rightarrow> uint8_t) \<Rightarrow> uintptr_t \<Rightarrow> size_t \<Rightarrow> nat \<Rightarrow>
   MultiLevelCache \<times> bool \<times> uint8_t list \<Rightarrow> MultiLevelCache \<times> bool \<times> uint8_t list" where
  "read_step h base src_bytes i st =
    (case st of (c, has_garbage, dst_bytes) \<Rightarrow>
      (let v = h (src_bytes + of_nat i)
       in (cache_access c (base + (src_bytes + of_nat i)) False,
           (if v = PATTERN_UNINITIALIZED \<or> v = PATTERN_FREED then True else has_garbage),
           dst_bytes[i := v])))"

definition allocator_read ::
  "c_int \<Rightarrow> size_t \<Rightarrow> uint8_t list option \<Rightarrow> size_t \<Rightarrow> allocator_state \<Rightarrow>
   bool \<times> uint8_t list option \<times> allocator_state" where
  "allocator_read i offset dst sz s0 =
    (let s = allocator_init s0
     in case dst of
          None \<Rightarrow> (False, dst, s)
        | Some dst_bytes \<Rightarrow>
            if i <s 0 \<or> sz = 0 then (False, dst, s)
            else (case find_block_by_id (g_head s) i of
                    None \<Rightarrow> (False, dst, s)
                  | Some k \<Rightarrow>
                      (let hdr = g_head s ! k
                       in if free hdr then (False, dst, s)
                          else if offset + sz > requested_size hdr then (False, dst, s)
                          else
                            (case fold (read_step (g_heap s) (g_heap_addr s) (start hdr + offset))
                                       [0..<unat sz] (g_cache s, False, dst_bytes) of
                               (c, has_garbage, d) \<Rightarrow>
                                 (\<not> has_garbage, Some d, s\<lparr>g_cache := c\<rparr>)))))"

text \<open>
  \<open>allocator_write\<close>.  The first pass computes \<open>has_garbage\<close>, which nothing reads (the
  early return on it is commented out in the source); the second pass simulates the cache
  access and stores the byte.  The statements about writes assume a source buffer of at
  least \<open>size\<close> bytes, as the source does.
\<close>

definition is_garbage :: "uint8_t \<Rightarrow> bool" where
  "is_garbage v \<longleftrightarrow> v = PATTERN_UNINITIALIZED \<or> v = PATTERN_FREED"

definition write_step ::
  "uintptr_t \<Rightarrow> size_t \<Rightarrow> uint8_t list \<Rightarrow> nat \<Rightarrow>
   MultiLevelCache \<times> (size_t \<Rightarrow> uint8_t) \<Rightarrow> MultiLevelCache \<times> (size_t \<Rightarrow> uint8_t)" where
  "write_step base dst_bytes src_bytes i st =
    (case st of (c, h) \<Rightarrow>
      (cache_access c (base + (dst_bytes + of_nat i)) True,
       h(dst_bytes + of_nat i := src_bytes ! i)))"

definition allocator_write ::
  "c_int \<Rightarrow> size_t \<Rightarrow> uint8_t list option \<Rightarrow> size_t \<Rightarrow> allocator_state \<Rightarrow> bool \<times> allocator_state" where
  "allocator_write i offset src sz s0 =
    (let s = allocator_init s0
     in case src of
          None \<Rightarrow> (False, s)
        | Some src_bytes \<Rightarrow>
            if i <s 0 \<or> sz = 0 then (False, s)
            else (case find_block_by_id (g_head s) i of
                    None \<Rightarrow> (False, s)
                  | Some k \<Rightarrow>
                      (let hdr = g_head s ! k
                       in if free hdr then (False, s)
                          else if offset + sz > requested_size hdr then (False, s)
                          else
                            (let dst_bytes = start hdr + offset;
                                 has_garbage = list_ex (\<lambda>j. is_garbage (g_heap s (dst_bytes + of_nat j)))
                                                 [0..<unat sz]
                             in case fold (write_step (g_heap_addr s) dst_bytes src_bytes)
                                          [0..<unat sz] (g_cache s, g_heap s) of
                                  (c, h) \<Rightarrow> (True, s\<lparr>g_cache := c, g_heap := h\<rparr>)))))"

text \<open>
  \<open>allocator_dump\<close> and \<open>allocator_stats\<close> print; what they change is the lazy
  initialisation of their first statement.  The printed text is not modelled.
\<close>

definition allocator_dump :: "allocator_state \<Rightarrow> allocator_state" where
  "allocator_dump s = allocator_init s"

definition allocator_stats :: "allocator_state \<Rightarrow> allocator_state" where
  "allocator_stats s = allocator_init s"

section \<open>Runs of the program\<close>

text \<open>
  The header fields of the model are kept apart from \<open>g_heap\<close>, and \<open>g_heap\<close> has a byte
  at every offset.  The model therefore describes the program as long as every store goes
  into the payload of a block inside the array, and \<open>g_heap\<close> then agrees with the array on
  the payload bytes of the allocated blocks.  \<open>reachable\<close> are the states of the runs that
  stay within these bounds: every command of the command loop is one call of the facade
  (the string and default forms of \<open>allocator_malloc\<close> are calls of \<open>allocator_malloc\<close>
  with some strategy), where
  \<^item> an allocation asks for at most \<open>2^64 - 16\<close> bytes, so that \<open>align_size\<close> does not wrap,
    and finds the id counter below \<open>INT_MAX\<close>, so that its increment does not overflow;
  \<^item> a read or a write has \<open>offset + size\<close> below \<open>2^64\<close>, so that the bounds check does
    not wrap, and a buffer of at least \<open>size\<close> bytes;
  \<^item> the cache menu calls one of its four operations.
\<close>

inductive reachable :: "allocator_state \<Rightarrow> bool" where
  r_init: "reachable (initial_state base)"
| r_malloc: "reachable s \<Longrightarrow> unat sz + 15 < 2 ^ 64 \<Longrightarrow> sint (g_next_id s) < 2147483647 \<Longrightarrow>
             reachable (snd (allocator_malloc sz strategy s))"
| r_free: "reachable s \<Longrightarrow> reachable (allocator_free i s)"
| r_set_cacheable: "reachable s \<Longrightarrow> reachable (allocator_set_block_cacheable i c s)"
| r_access: "reachable s \<Longrightarrow> reachable (allocator_access i w s)"
| r_read: "reachable s \<Longrightarrow> unat off + unat sz < 2 ^ 64 \<Longrightarrow>
           (\<forall>d. dst = Some d \<longrightarrow> unat sz \<le> length d) \<Longrightarrow>
           reachable (snd (snd (allocator_read i off dst sz s)))"
| r_write: "reachable s \<Longrightarrow> unat off + unat sz < 2 ^ 64 \<Longrightarrow>
            (\<forall>b. src = Some b \<longrightarrow> unat sz \<le> length b) \<Longrightarrow>
            reachable (snd (allocator_write i off src sz s))"
| r_set_strategy: "reachable s \<Longrightarrow> reachable (allocator_set_strategy strategy s)"
| r_dump: "reachable s \<Longrightarrow> reachable (allocator_dump s)"
| r_stats: "reachable s \<Longrightarrow> reachable (allocator_stats s)"
| r_cache_init_default: "reachable s \<Longrightarrow> reachable (s\<lparr>g_cache := cache_init_default (g_cache s)\<rparr>)"
| r_cache_reset: "reachable s \<Longrightarrow> reachable (s\<lparr>g_cache := reset (g_cache s)\<rparr>)"
| r_cache_add_level:
    "reachable s \<Longrightarrow> reachable (s\<lparr>g_cache := add_level (g_cache s) sb bs as lat\<rparr>)"
| r_cache_configure_level:
    "reachable s \<Longrightarrow> reachable (s\<lparr>g_cache := configure_level (g_cache s) idx sb bs as lat\<rparr>)"

section \<open>Auxiliary notions and example inputs\<close>




text \<open>
  What the fit search promises about its candidate, for each strategy, over the blocks
  seen so far: nothing fits, or the candidate is the block at its index, it fits, and it
  is the first fitting block (First), the smallest fitting block and strictly smaller than
  every earlier fitting block (Best), the largest and strictly larger than every earlier
  fitting block (Worst).
\<close>

definition first_choice :: "BlockHeader list \<Rightarrow> size_t \<Rightarrow> (nat \<times> BlockHeader) option \<Rightarrow> bool" where
  "first_choice bs sz r \<longleftrightarrow>
    (case r of
       None \<Rightarrow> \<forall>j. \<not> fits bs sz j
     | Some (c, cb) \<Rightarrow> cb = bs ! c \<and> fits bs sz c \<and> (\<forall>j < c. \<not> fits bs sz j))"

definition best_choice :: "BlockHeader list \<Rightarrow> size_t \<Rightarrow> (nat \<times> BlockHeader) option \<Rightarrow> bool" where
  "best_choice bs sz r \<longleftrightarrow>
    (case r of
       None \<Rightarrow> \<forall>j. \<not> fits bs sz j
     | Some (c, cb) \<Rightarrow> cb = bs ! c \<and> fits bs sz c \<and>
         (\<forall>j. fits bs sz j \<longrightarrow> size_blk (bs ! c) \<le> size_blk (bs ! j) \<and>
                              (j < c \<longrightarrow> size_blk (bs ! c) < size_blk (bs ! j))))"

definition worst_choice :: "BlockHeader list \<Rightarrow> size_t \<Rightarrow> (nat \<times> BlockHeader) option \<Rightarrow> bool" where
  "worst_choice bs sz r \<longleftrightarrow>
    (case r of
       None \<Rightarrow> \<forall>j. \<not> fits bs sz j
     | Some (c, cb) \<Rightarrow> cb = bs ! c \<and> fits bs sz c \<and>
         (\<forall>j. fits bs sz j \<longrightarrow> size_blk (bs ! j) \<le> size_blk (bs ! c) \<and>
                              (j < c \<longrightarrow> size_blk (bs ! j) < size_blk (bs ! c))))"

text \<open>A block list with two used blocks and four free blocks, two of them of equal size twice.\<close>

definition example_blocks :: "BlockHeader list" where
  "example_blocks =
    [\<lparr>addr = 0, id_blk = 0, start = 56, size_blk = 112, requested_size = 100,
      free = False, cacheable = True, cache_hits = 0\<rparr>,
     \<lparr>addr = 168, id_blk = -1, start = 224, size_blk = 1008, requested_size = 0,
      free = True, cacheable = False, cache_hits = 0\<rparr>,
     \<lparr>addr = 1232, id_blk = 2, start = 1288, size_blk = 112, requested_size = 100,
      free = False, cacheable = True, cache_hits = 0\<rparr>,
     \<lparr>addr = 1400, id_blk = -1, start = 1456, size_blk = 112, requested_size = 0,
      free = True, cacheable = False, cache_hits = 0\<rparr>,
     \<lparr>addr = 1568, id_blk = -1, start = 1624, size_blk = 112, requested_size = 0,
      free = True, cacheable = False, cache_hits = 0\<rparr>,
     \<lparr>addr = 1736, id_blk = -1, start = 1792, size_blk = 1008, requested_size = 0,
      free = True, cacheable = False, cache_hits = 0\<rparr>]"

text \<open>
  The layout of the block list.  \<open>chain a bs\<close>: the headers of \<open>bs\<close> lie one behind the
  other from position \<open>a\<close> on, each payload starts right behind its header, the next
  header right behind the payload, the last payload ends at \<open>HEAP_SIZE\<close> and is not
  empty.
\<close>

fun chain :: "nat \<Rightarrow> BlockHeader list \<Rightarrow> bool" where
  "chain a [] = False"
| "chain a [b] =
     (unat (addr b) = a \<and> start b = addr b + sizeof_BlockHeader \<and> size_blk b \<noteq> 0 \<and>
      a + unat sizeof_BlockHeader + unat (size_blk b) = unat HEAP_SIZE)"
| "chain a (b # c # bs) =
     (unat (addr b) = a \<and> start b = addr b + sizeof_BlockHeader \<and>
      chain (a + unat sizeof_BlockHeader + unat (size_blk b)) (c # bs))"

text \<open>The ids of the allocated blocks, in list order.\<close>

definition used_ids :: "BlockHeader list \<Rightarrow> c_int list" where
  "used_ids bs = map id_blk (filter (\<lambda>b. \<not> free b) bs)"

text \<open>
  The invariant of the runs: the layout, and the ids of the allocated blocks are pairwise
  distinct and below the id counter, which is not negative (as unsigned numbers the ids
  and the counter are below \<open>2^31\<close>).
\<close>

definition heap_inv :: "allocator_state \<Rightarrow> bool" where
  "heap_inv s \<longleftrightarrow>
     (g_head s \<noteq> [] \<longrightarrow> chain 0 (g_head s)) \<and>
     distinct (used_ids (g_head s)) \<and>
     (\<forall>x \<in> set (used_ids (g_head s)). unat x < unat (g_next_id s)) \<and>
     unat (g_next_id s) < 2147483648"

text \<open>The requested bytes of every allocated block lie in its payload.\<close>

definition requested_fits :: "BlockHeader list \<Rightarrow> bool" where
  "requested_fits bs \<longleftrightarrow> (\<forall>b \<in> set bs. \<not> free b \<longrightarrow> requested_size b \<le> size_blk b)"

text \<open>
  Where a heap position lies: in the payload of a block, on a block header, in the array.
\<close>

definition in_payload :: "BlockHeader \<Rightarrow> size_t \<Rightarrow> bool" where
  "in_payload b a \<longleftrightarrow> start b \<le> a \<and> a - start b < size_blk b"

definition on_header :: "BlockHeader list \<Rightarrow> size_t \<Rightarrow> bool" where
  "on_header bs a \<longleftrightarrow> (\<exists>b \<in> set bs. addr b \<le> a \<and> a - addr b < sizeof_BlockHeader)"

definition in_array :: "size_t \<Rightarrow> bool" where
  "in_array a \<longleftrightarrow> a < HEAP_SIZE"

text \<open>One \<open>malloc 16\<close> followed by \<open>free\<close> of the id it returned.\<close>

definition malloc_free_cycle :: "allocator_state \<Rightarrow> allocator_state" where
  "malloc_free_cycle s =
     allocator_free (fst (allocator_malloc 16 First s)) (snd (allocator_malloc 16 First s))"

text \<open>The header that a successful \<open>allocator_malloc\<close> writes for the chosen block.\<close>

definition malloc_block :: "allocator_state \<Rightarrow> size_t \<Rightarrow> nat \<Rightarrow> BlockHeader" where
  "malloc_block s sz k =
    (let b = split_block_if_needed (g_head (allocator_init s)) k (align_size sz) ! k
     in b\<lparr>free := False, id_blk := g_next_id s, cacheable := True, cache_hits := 0,
          start := addr b + sizeof_BlockHeader, requested_size := sz\<rparr>)"

text \<open>The state after the first command \<open>malloc 16\<close>, and after \<open>write 0 0 hi\<close>.\<close>

definition example_state :: allocator_state where
  "example_state = snd (allocator_malloc 16 First (initial_state 4096))"

definition example_state_written :: allocator_state where
  "example_state_written = snd (allocator_write 0 0 (Some [104, 105]) 2 example_state)"

text \<open>The fields of a header that the claims about free and allocated blocks speak of.\<close>

definition fields :: "BlockHeader \<Rightarrow> bool \<times> c_int \<times> size_t \<times> size_t \<times> bool" where
  "fields b = (free b, id_blk b, size_blk b, requested_size b, cacheable b)"

text \<open>The state after the commands \<open>malloc 100\<close> and \<open>malloc 200\<close>.\<close>

definition example_two_blocks :: allocator_state where
  "example_two_blocks =
     snd (allocator_malloc 200 First (snd (allocator_malloc 100 First (initial_state 4096))))"

text \<open>The part of the free-block fields that every operation maintains.\<close>

definition free_fields_ok :: "BlockHeader list \<Rightarrow> bool" where
  "free_fields_ok bs \<longleftrightarrow> (\<forall>b \<in> set bs. free b \<longrightarrow> id_blk b = -1 \<and> \<not> cacheable b)"

text \<open>
  The block list of the fresh heap: one free block over the whole array.  The state after
  \<open>2^31\<close> pairs of \<open>malloc 16\<close> and \<open>free\<close>, started on the fresh program.
\<close>

definition whole_heap_free :: "BlockHeader list" where
  "whole_heap_free =
    [\<lparr>addr = 0, id_blk = -1, start = 56, size_blk = 65480, requested_size = 0,
      free = True, cacheable = False, cache_hits = 0\<rparr>]"

definition wrapped_state :: allocator_state where
  "wrapped_state = (malloc_free_cycle ^^ 2147483648) (initial_state 4096)"

text \<open>The state after one more \<open>malloc 16\<close>: block 0 is allocated under the wrapped id.\<close>

definition wrapped_block_state :: allocator_state where
  "wrapped_block_state = snd (allocator_malloc 16 First wrapped_state)"

section \<open>Cache levels: lookup after insert\<close>

lemma fst_access_set_Cons:
  "fst (access_set (l # ls) tg ts) \<longleftrightarrow> (valid l \<and> tag l = tg) \<or> fst (access_set ls tg ts)"
  by (auto simp: case_prod_beta)

lemma access_set_hit:
  "\<exists>l \<in> set ls. valid l \<and> tag l = tg \<Longrightarrow> fst (access_set ls tg ts)"
  by (induction ls) (auto simp: fst_access_set_Cons simp del: access_set.simps)

lemma access_set_length: "length (snd (access_set ls tg ts)) = length ls"
  by (induction ls) (auto simp: case_prod_beta)

lemma in_set_update_cases:
  "x \<in> set (xs[i := y]) \<Longrightarrow> x \<in> set xs \<or> (i < length xs \<and> x = y)"
  by (cases "i < length xs") (auto simp: list_update_beyond dest: set_update_subset_insert [THEN subsetD])

lemma fill_invalid_Some:
  "fill_invalid ls tg ts = Some ls' \<Longrightarrow>
     length ls' = length ls \<and> (\<exists>l \<in> set ls'. valid l \<and> tag l = tg)"
  by (induction ls arbitrary: ls') (auto simp: fresh_line_def split: if_splits)

lemma victim_fold_lt:
  "v < length ls \<Longrightarrow> \<forall>i \<in> set is. i < length ls \<Longrightarrow> fold (victim_step ls) is v < length ls"
  by (induction "is" arbitrary: v) (auto simp: victim_step_def Let_def)

lemma choose_victim_lt: "ls \<noteq> [] \<Longrightarrow> choose_victim ls < length ls"
  unfolding choose_victim_def by (rule victim_fold_lt) auto

lemma insert_set_length: "length (insert_set ls tg ts) = length ls"
  by (auto simp: insert_set_def split: option.splits dest: fill_invalid_Some)

lemma insert_set_has:
  "ls \<noteq> [] \<Longrightarrow> \<exists>l \<in> set (insert_set ls tg ts). valid l \<and> tag l = tg"
proof (cases "fill_invalid ls tg ts")
  case None
  assume ne: "ls \<noteq> []"
  have "fresh_line tg ts \<in> set (ls[choose_victim ls := fresh_line tg ts])"
    using choose_victim_lt [OF ne] by (simp add: set_update_memI)
  moreover have "valid (fresh_line tg ts) \<and> tag (fresh_line tg ts) = tg"
    by (simp add: fresh_line_def)
  ultimately show ?thesis using None unfolding insert_set_def by (simp only: option.case) blast
next
  case (Some ls')
  then show ?thesis using fill_invalid_Some [OF Some] by (simp add: insert_set_def)
qed

lemma level_wf_new: "level_wf (CacheLevel_new sb bs as lat idx)"
  by (auto simp: level_wf_def CacheLevel_new_def Let_def)

lemma set_idx_lt:
  "level_wf L \<Longrightarrow> unat (fst (compute_index_tag L a)) < length (m_sets L)"
  by (simp add: level_wf_def compute_index_tag_def Let_def word_less_nat_alt [symmetric]
        word_mod_less_divisor word_neq_0_conv [symmetric])

lemma level_wf_access: "level_wf L \<Longrightarrow> level_wf (snd (CacheLevel_access L a ts))"
  unfolding level_wf_def CacheLevel_access_def
  by (auto simp: Let_def case_prod_beta access_set_length dest!: in_set_update_cases)

lemma level_wf_insert: "level_wf L \<Longrightarrow> level_wf (CacheLevel_insert L a ts)"
  unfolding level_wf_def CacheLevel_insert_def
  by (auto simp: Let_def case_prod_beta insert_set_length dest!: in_set_update_cases)

lemma level_reachable_wf: "level_reachable L \<Longrightarrow> level_wf L"
proof (induction rule: level_reachable.induct)
  case (lr_new sb bs as lat idx)
  show ?case by (rule level_wf_new)
next
  case (lr_access L a ts)
  then show ?case by (simp add: level_wf_access)
next
  case (lr_insert L a ts)
  then show ?case by (simp add: level_wf_insert)
next
  case (lr_stats L st)
  then show ?case by (simp add: level_wf_def)
qed

lemma compute_index_tag_insert [simp]:
  "compute_index_tag (CacheLevel_insert L a ts) b = compute_index_tag L b"
  by (simp add: compute_index_tag_def CacheLevel_insert_def Let_def case_prod_beta)

text \<open>Insert leaves a valid line with the tag in the set, and the lookup finds it.\<close>

lemma insert_then_access_wf:
  assumes wf: "level_wf L"
  shows "fst (CacheLevel_access (CacheLevel_insert L a t) a t')"
proof -
  obtain si tg where it: "compute_index_tag L a = (si, tg)" by (cases "compute_index_tag L a")
  have lt: "unat si < length (m_sets L)" using set_idx_lt [OF wf, of a] it by simp
  have "m_sets L ! unat si \<in> set (m_sets L)" using lt by simp
  then have ne: "m_sets L ! unat si \<noteq> []"
    using wf by (auto simp: level_wf_def unat_eq_zero)
  have sets: "m_sets (CacheLevel_insert L a t) ! unat si = insert_set (m_sets L ! unat si) tg t"
    using lt it by (simp add: CacheLevel_insert_def)
  have "fst (access_set (insert_set (m_sets L ! unat si) tg t) tg t')"
    by (rule access_set_hit [OF insert_set_has [OF ne]])
  then show ?thesis
    using it sets by (simp add: CacheLevel_access_def Let_def case_prod_beta)
qed

text \<open>
  Claim C10.  For every cache level the program can hold, every address \<open>a\<close> and all
  timestamps \<open>t\<close> and \<open>t'\<close>: after \<open>insert(a, t)\<close> the lookup \<open>access(a, t')\<close> that follows
  with no insert in between returns a hit, because insert always leaves a valid line with
  the tag of \<open>a\<close> in the set of \<open>a\<close>.
\<close>

theorem insert_then_lookup_hits:
  "level_reachable L \<Longrightarrow> fst (CacheLevel_access (CacheLevel_insert L a t) a t')"
  by (rule insert_then_access_wf [OF level_reachable_wf])

theorem insert_then_lookup_hits_witness:
  "level_reachable (CacheLevel_new 4096 64 4 1 0) \<and>
   fst (CacheLevel_access (CacheLevel_insert (CacheLevel_new 4096 64 4 1 0) 4660 7) 4660 9)"
  using insert_then_lookup_hits [OF lr_new, of 4096 64 4 1 0 4660 7 9]
  by (simp add: lr_new)

section \<open>The controller: inclusive fill\<close>

lemma compute_index_tag_stats [simp]:
  "compute_index_tag (L\<lparr>m_stats := st\<rparr>) a = compute_index_tag L a"
  by (simp add: compute_index_tag_def)



lemma m_stats_access [simp]: "m_stats (snd (CacheLevel_access L a ts)) = m_stats L"
  by (simp add: CacheLevel_access_def Let_def case_prod_beta)
























section \<open>The fit search\<close>

lemma fits_snoc:
  "fits (pre @ [b]) sz j \<longleftrightarrow> fits pre sz j \<or> (j = length pre \<and> free b \<and> sz \<le> size_blk b)"
  by (auto simp: fits_def nth_append less_Suc_eq)

lemma fits_lt: "fits bs sz j \<Longrightarrow> j < length bs"
  by (simp add: fits_def)

lemma nth_snoc_fits: "fits pre sz j \<Longrightarrow> (pre @ [b]) ! j = pre ! j"
  by (simp add: fits_def nth_append)

lemma first_loop:
  "\<forall>j. \<not> fits pre sz j \<Longrightarrow>
   first_choice (pre @ rest) sz (find_fit_loop rest (length pre) sz First None)"
proof (induction rest arbitrary: pre)
  case Nil
  then show ?case by (simp add: first_choice_def)
next
  case (Cons b rest)
  show ?case
  proof (cases "free b \<and> sz \<le> size_blk b")
    case True
    then have "fits (pre @ b # rest) sz (length pre)" by (simp add: fits_def)
    moreover have "\<forall>j < length pre. \<not> fits (pre @ b # rest) sz j"
      using Cons.prems by (auto simp: fits_def nth_append)
    ultimately show ?thesis using True by (auto simp: first_choice_def)
  next
    case False
    then have "\<forall>j. \<not> fits (pre @ [b]) sz j" using Cons.prems by (simp add: fits_snoc)
    from Cons.IH [OF this] show ?thesis using False by (auto simp: not_le)
  qed
qed

lemma best_step_keep:
  "best_choice pre sz r \<Longrightarrow> \<not> (free b \<and> sz \<le> size_blk b) \<Longrightarrow> best_choice (pre @ [b]) sz r"
  by (auto simp: best_choice_def fits_snoc nth_snoc_fits split: option.splits)

lemma best_step_first:
  "best_choice pre sz None \<Longrightarrow> free b \<and> sz \<le> size_blk b \<Longrightarrow>
   best_choice (pre @ [b]) sz (Some (length pre, b))"
  by (auto simp: best_choice_def fits_snoc)

lemma best_step_smaller:
  "best_choice pre sz (Some (c, cb)) \<Longrightarrow> free b \<and> sz \<le> size_blk b \<Longrightarrow>
   size_blk b < size_blk cb \<Longrightarrow> best_choice (pre @ [b]) sz (Some (length pre, b))"
  by (fastforce simp: best_choice_def fits_snoc nth_snoc_fits dest: fits_lt)

lemma best_step_not_smaller:
  "best_choice pre sz (Some (c, cb)) \<Longrightarrow> free b \<and> sz \<le> size_blk b \<Longrightarrow>
   \<not> size_blk b < size_blk cb \<Longrightarrow> best_choice (pre @ [b]) sz (Some (c, cb))"
  by (fastforce simp: best_choice_def fits_snoc nth_snoc_fits dest: fits_lt)

lemma best_loop:
  "best_choice pre sz cand \<Longrightarrow>
   best_choice (pre @ rest) sz (find_fit_loop rest (length pre) sz Best cand)"
proof (induction rest arbitrary: pre cand)
  case Nil
  then show ?case by simp
next
  case (Cons b rest)
  have app: "pre @ b # rest = (pre @ [b]) @ rest" by simp
  have len: "Suc (length pre) = length (pre @ [b])" by simp
  show ?case
  proof (cases "free b \<and> sz \<le> size_blk b")
    case False
    from Cons.IH [OF best_step_keep [OF Cons.prems False]]
    show ?thesis using False unfolding app len by (auto simp: not_le)
  next
    case True
    show ?thesis
    proof (cases cand)
      case None
      from Cons.IH [OF best_step_first [OF Cons.prems [unfolded None] True]]
      show ?thesis using True None unfolding app len by (auto simp: not_le)
    next
      case (Some p)
      obtain c cb where p: "p = (c, cb)" by (cases p)
      show ?thesis
      proof (cases "size_blk b < size_blk cb")
        case lt: True
        from Cons.IH [OF best_step_smaller [OF Cons.prems [unfolded Some p] True lt]]
        show ?thesis using True Some p lt unfolding app len by (auto simp: not_le)
      next
        case ge: False
        from Cons.IH [OF best_step_not_smaller [OF Cons.prems [unfolded Some p] True ge]]
        show ?thesis using True Some p ge unfolding app len by (auto simp: not_le)
      qed
    qed
  qed
qed

lemma worst_step_keep:
  "worst_choice pre sz r \<Longrightarrow> \<not> (free b \<and> sz \<le> size_blk b) \<Longrightarrow> worst_choice (pre @ [b]) sz r"
  by (auto simp: worst_choice_def fits_snoc nth_snoc_fits split: option.splits)

lemma worst_step_first:
  "worst_choice pre sz None \<Longrightarrow> free b \<and> sz \<le> size_blk b \<Longrightarrow>
   worst_choice (pre @ [b]) sz (Some (length pre, b))"
  by (auto simp: worst_choice_def fits_snoc)

lemma worst_step_larger:
  "worst_choice pre sz (Some (c, cb)) \<Longrightarrow> free b \<and> sz \<le> size_blk b \<Longrightarrow>
   size_blk cb < size_blk b \<Longrightarrow> worst_choice (pre @ [b]) sz (Some (length pre, b))"
  by (fastforce simp: worst_choice_def fits_snoc nth_snoc_fits dest: fits_lt)

lemma worst_step_not_larger:
  "worst_choice pre sz (Some (c, cb)) \<Longrightarrow> free b \<and> sz \<le> size_blk b \<Longrightarrow>
   \<not> size_blk cb < size_blk b \<Longrightarrow> worst_choice (pre @ [b]) sz (Some (c, cb))"
  by (fastforce simp: worst_choice_def fits_snoc nth_snoc_fits dest: fits_lt)

lemma worst_loop:
  "worst_choice pre sz cand \<Longrightarrow>
   worst_choice (pre @ rest) sz (find_fit_loop rest (length pre) sz Worst cand)"
proof (induction rest arbitrary: pre cand)
  case Nil
  then show ?case by simp
next
  case (Cons b rest)
  have app: "pre @ b # rest = (pre @ [b]) @ rest" by simp
  have len: "Suc (length pre) = length (pre @ [b])" by simp
  show ?case
  proof (cases "free b \<and> sz \<le> size_blk b")
    case False
    from Cons.IH [OF worst_step_keep [OF Cons.prems False]]
    show ?thesis using False unfolding app len by (auto simp: not_le)
  next
    case True
    show ?thesis
    proof (cases cand)
      case None
      from Cons.IH [OF worst_step_first [OF Cons.prems [unfolded None] True]]
      show ?thesis using True None unfolding app len by (auto simp: not_le)
    next
      case (Some p)
      obtain c cb where p: "p = (c, cb)" by (cases p)
      show ?thesis
      proof (cases "size_blk cb < size_blk b")
        case lt: True
        from Cons.IH [OF worst_step_larger [OF Cons.prems [unfolded Some p] True lt]]
        show ?thesis using True Some p lt unfolding app len by (auto simp: not_le)
      next
        case ge: False
        from Cons.IH [OF worst_step_not_larger [OF Cons.prems [unfolded Some p] True ge]]
        show ?thesis using True Some p ge unfolding app len by (auto simp: not_le)
      qed
    qed
  qed
qed

lemma find_fit_First: "first_choice bs sz (find_fit_loop bs 0 sz First None)"
  using first_loop [of "[]" sz bs] by (simp add: fits_def)

lemma find_fit_Best: "best_choice bs sz (find_fit_loop bs 0 sz Best None)"
  using best_loop [of "[]" sz None bs] by (simp add: best_choice_def fits_def)

lemma find_fit_Worst: "worst_choice bs sz (find_fit_loop bs 0 sz Worst None)"
  using worst_loop [of "[]" sz None bs] by (simp add: worst_choice_def fits_def)


lemma find_fit_First_iff:
  "find_fit bs sz First = Some k \<longleftrightarrow> fits bs sz k \<and> (\<forall>j < k. \<not> fits bs sz j)"
proof (cases "find_fit_loop bs 0 sz First None")
  case None
  then show ?thesis using find_fit_First [of bs sz]
    by (auto simp: find_fit_def first_choice_def)
next
  case (Some p)
  obtain c cb where p: "p = (c, cb)" by (cases p)
  have c: "fits bs sz c" "\<forall>j < c. \<not> fits bs sz j"
    using find_fit_First [of bs sz] Some p by (simp_all add: first_choice_def)
  have "k = c" if "fits bs sz k" "\<forall>j < k. \<not> fits bs sz j"
    using that c by (meson linorder_neqE_nat)
  then show ?thesis using c Some p by (auto simp: find_fit_def)
qed

lemma find_fit_Best_iff:
  "find_fit bs sz Best = Some k \<longleftrightarrow>
     fits bs sz k \<and>
     (\<forall>j. fits bs sz j \<longrightarrow> size_blk (bs ! k) \<le> size_blk (bs ! j) \<and>
                          (j < k \<longrightarrow> size_blk (bs ! k) < size_blk (bs ! j)))"
  (is "?L \<longleftrightarrow> ?R k")
proof (cases "find_fit_loop bs 0 sz Best None")
  case None
  then show ?thesis using find_fit_Best [of bs sz]
    by (auto simp: find_fit_def best_choice_def)
next
  case (Some p)
  obtain c cb where p: "p = (c, cb)" by (cases p)
  have c: "?R c"
    using find_fit_Best [of bs sz] Some p by (simp add: best_choice_def)
  have "k = c" if "?R k"
  proof (rule ccontr)
    assume "k \<noteq> c"
    then consider "k < c" | "c < k" by (meson linorder_neqE_nat)
    then show False
    proof cases
      case 1
      then have "size_blk (bs ! c) < size_blk (bs ! k)" using c that by blast
      moreover have "size_blk (bs ! k) \<le> size_blk (bs ! c)" using c that by blast
      ultimately show False by simp
    next
      case 2
      then have "size_blk (bs ! k) < size_blk (bs ! c)" using c that by blast
      moreover have "size_blk (bs ! c) \<le> size_blk (bs ! k)" using c that by blast
      ultimately show False by simp
    qed
  qed
  then show ?thesis using c Some p by (auto simp: find_fit_def)
qed

lemma find_fit_Worst_iff:
  "find_fit bs sz Worst = Some k \<longleftrightarrow>
     fits bs sz k \<and>
     (\<forall>j. fits bs sz j \<longrightarrow> size_blk (bs ! j) \<le> size_blk (bs ! k) \<and>
                          (j < k \<longrightarrow> size_blk (bs ! j) < size_blk (bs ! k)))"
  (is "?L \<longleftrightarrow> ?R k")
proof (cases "find_fit_loop bs 0 sz Worst None")
  case None
  then show ?thesis using find_fit_Worst [of bs sz]
    by (auto simp: find_fit_def worst_choice_def)
next
  case (Some p)
  obtain c cb where p: "p = (c, cb)" by (cases p)
  have c: "?R c"
    using find_fit_Worst [of bs sz] Some p by (simp add: worst_choice_def)
  have "k = c" if "?R k"
  proof (rule ccontr)
    assume "k \<noteq> c"
    then consider "k < c" | "c < k" by (meson linorder_neqE_nat)
    then show False
    proof cases
      case 1
      then have "size_blk (bs ! k) < size_blk (bs ! c)" using c that by blast
      moreover have "size_blk (bs ! c) \<le> size_blk (bs ! k)" using c that by blast
      ultimately show False by simp
    next
      case 2
      then have "size_blk (bs ! c) < size_blk (bs ! k)" using c that by blast
      moreover have "size_blk (bs ! k) \<le> size_blk (bs ! c)" using c that by blast
      ultimately show False by simp
    qed
  qed
  then show ?thesis using c Some p by (auto simp: find_fit_def)
qed

lemma find_fit_None_iff: "find_fit bs sz strategy = None \<longleftrightarrow> (\<forall>j. \<not> fits bs sz j)"
proof (cases strategy)
  case First
  show ?thesis using find_fit_First [of bs sz] unfolding First
    by (auto simp: find_fit_def first_choice_def split: option.splits)
next
  case Best
  show ?thesis using find_fit_Best [of bs sz] unfolding Best
    by (auto simp: find_fit_def best_choice_def split: option.splits)
next
  case Worst
  show ?thesis using find_fit_Worst [of bs sz] unfolding Worst
    by (auto simp: find_fit_def worst_choice_def split: option.splits)
qed

text \<open>
  Claim C5.  For every block list and every request \<open>sz\<close>, the fit search considers only
  the blocks that are free and have \<open>size \<ge> sz\<close>, walking from head to tail: it returns no
  block exactly when no block qualifies; First returns exactly the first qualifying block;
  Best returns exactly the qualifying block of minimum size that is earliest in the list
  among those of minimum size; Worst returns exactly the qualifying block of maximum size
  that is earliest in the list among those of maximum size.
\<close>

theorem find_fit_spec:
  "(find_fit bs sz strategy = None \<longleftrightarrow> (\<forall>j. \<not> fits bs sz j)) \<and>
   (find_fit bs sz First = Some k \<longleftrightarrow> fits bs sz k \<and> (\<forall>j < k. \<not> fits bs sz j)) \<and>
   (find_fit bs sz Best = Some k \<longleftrightarrow>
      fits bs sz k \<and>
      (\<forall>j. fits bs sz j \<longrightarrow> size_blk (bs ! k) \<le> size_blk (bs ! j) \<and>
                           (j < k \<longrightarrow> size_blk (bs ! k) < size_blk (bs ! j)))) \<and>
   (find_fit bs sz Worst = Some k \<longleftrightarrow>
      fits bs sz k \<and>
      (\<forall>j. fits bs sz j \<longrightarrow> size_blk (bs ! j) \<le> size_blk (bs ! k) \<and>
                           (j < k \<longrightarrow> size_blk (bs ! j) < size_blk (bs ! k))))"
  using find_fit_None_iff [of bs sz strategy] find_fit_First_iff [of bs sz k]
    find_fit_Best_iff [of bs sz k] find_fit_Worst_iff [of bs sz k]
  by (intro conjI)

theorem find_fit_spec_witness:
  "find_fit example_blocks 64 First = Some 1 \<and> fits example_blocks 64 1 \<and>
   \<not> fits example_blocks 64 0 \<and>
   find_fit example_blocks 64 Best = Some 3 \<and> fits example_blocks 64 3 \<and>
   fits example_blocks 64 4 \<and>
   size_blk (example_blocks ! 3) \<le> size_blk (example_blocks ! 4) \<and>
   find_fit example_blocks 64 Worst = Some 1 \<and> fits example_blocks 64 5 \<and>
   size_blk (example_blocks ! 5) \<le> size_blk (example_blocks ! 1) \<and>
   find_fit example_blocks 2048 Best = None \<and> \<not> fits example_blocks 2048 1"
proof -
  have f: "find_fit example_blocks 64 First = Some 1" "find_fit example_blocks 64 Best = Some 3"
    "find_fit example_blocks 64 Worst = Some 1" "find_fit example_blocks 2048 Best = None"
    by (simp_all add: find_fit_def example_blocks_def)
  note a = find_fit_spec [of example_blocks 64 First 1]
  note b = find_fit_spec [of example_blocks 64 Best 3]
  note c = find_fit_spec [of example_blocks 2048 Best 1]
  have a1: "fits example_blocks 64 1" "\<not> fits example_blocks 64 0" using a f by auto
  have b1: "fits example_blocks 64 3" using b f by simp
  have b2: "fits example_blocks 64 4" by (simp add: fits_def example_blocks_def)
  have b3: "size_blk (example_blocks ! 3) \<le> size_blk (example_blocks ! 4)"
    using b f b2 by blast
  have c1: "fits example_blocks 64 5" by (simp add: fits_def example_blocks_def)
  have c2: "size_blk (example_blocks ! 5) \<le> size_blk (example_blocks ! 1)"
    using a f c1 by blast
  have d: "\<not> fits example_blocks 2048 1" using c f by blast
  show ?thesis using f a1 b1 b2 b3 c1 c2 d by simp
qed

section \<open>Splitting\<close>

lemma unat_sizeof_BlockHeader [simp]: "unat sizeof_BlockHeader = 56"
  by (simp add: sizeof_BlockHeader_def)

lemma split_test:
  "sz \<le> b \<Longrightarrow> (b - sz \<le> sizeof_BlockHeader + 8) \<longleftrightarrow> unat b - unat sz \<le> 64" for sz b :: size_t
  by (simp add: word_le_nat_alt unat_sub sizeof_BlockHeader_def)

lemma split_rest_size:
  "sz \<le> b \<Longrightarrow> 64 < unat b - unat sz \<Longrightarrow>
   unat (b - sz - sizeof_BlockHeader) = unat b - unat sz - 56" for sz b :: size_t
proof -
  assume le: "sz \<le> b" and big: "64 < unat b - unat sz"
  have r: "unat (b - sz) = unat b - unat sz" using le by (simp add: unat_sub)
  have "sizeof_BlockHeader \<le> b - sz"
    using big r by (simp add: word_le_nat_alt)
  then show ?thesis using r by (simp add: unat_sub)
qed

text \<open>
  Claim C6.  For every chosen block (index \<open>k\<close>) and size \<open>sz \<le> chosen.size\<close>, with
  \<open>R = chosen.size - sz\<close> computed exactly: if \<open>R > header_size + 8\<close>, the chosen block keeps
  all its fields except that its payload size becomes exactly \<open>sz\<close>, and a new free block
  with id -1, requested size 0, cacheable false and payload size \<open>R - header_size\<close>, whose
  header lies at \<open>chosen + header_size + sz\<close>, is linked right behind it, in front of the
  old successors; the blocks before are untouched.  If \<open>R \<le> header_size + 8\<close>, the list
  (and so the size of the chosen block) is unchanged.
\<close>

theorem split_block_spec:
  assumes k: "k < length bs" and le: "sz \<le> size_blk (bs ! k)"
  shows
   "(unat sizeof_BlockHeader + 8 < unat (size_blk (bs ! k)) - unat sz \<longrightarrow>
       length (split_block_if_needed bs k sz) = Suc (length bs) \<and>
       split_block_if_needed bs k sz ! k = (bs ! k)\<lparr>size_blk := sz\<rparr> \<and>
       id_blk (split_block_if_needed bs k sz ! Suc k) = -1 \<and>
       requested_size (split_block_if_needed bs k sz ! Suc k) = 0 \<and>
       \<not> cacheable (split_block_if_needed bs k sz ! Suc k) \<and>
       free (split_block_if_needed bs k sz ! Suc k) \<and>
       unat (size_blk (split_block_if_needed bs k sz ! Suc k)) =
         unat (size_blk (bs ! k)) - unat sz - unat sizeof_BlockHeader \<and>
       addr (split_block_if_needed bs k sz ! Suc k) = addr (bs ! k) + sizeof_BlockHeader + sz \<and>
       take k (split_block_if_needed bs k sz) = take k bs \<and>
       drop (Suc (Suc k)) (split_block_if_needed bs k sz) = drop (Suc k) bs) \<and>
    (unat (size_blk (bs ! k)) - unat sz \<le> unat sizeof_BlockHeader + 8 \<longrightarrow>
       split_block_if_needed bs k sz = bs)"
proof (cases "64 < unat (size_blk (bs ! k)) - unat sz")
  case True
  then have t: "\<not> size_blk (bs ! k) - sz \<le> sizeof_BlockHeader + 8"
    using split_test [OF le] by simp
  have lk: "length (take k bs) = k" using k by simp
  show ?thesis
    using True t k split_rest_size [OF le True]
    by (simp add: split_block_if_needed_def Let_def nth_append lk)
next
  case False
  then have t: "size_blk (bs ! k) - sz \<le> sizeof_BlockHeader + 8"
    using split_test [OF le] by simp
  show ?thesis using False t by (simp add: split_block_if_needed_def Let_def)
qed


theorem split_block_spec_witness:
  "1 < length example_blocks \<and> 64 \<le> size_blk (example_blocks ! 1) \<and>
   unat sizeof_BlockHeader + 8 < unat (size_blk (example_blocks ! 1)) - unat (64 :: size_t) \<and>
   length (split_block_if_needed example_blocks 1 64) = Suc (length example_blocks) \<and>
   split_block_if_needed example_blocks 1 64 ! 1 = (example_blocks ! 1)\<lparr>size_blk := 64\<rparr> \<and>
   unat (size_blk (split_block_if_needed example_blocks 1 64 ! Suc 1)) = 888 \<and>
   3 < length example_blocks \<and> 64 \<le> size_blk (example_blocks ! 3) \<and>
   unat (size_blk (example_blocks ! 3)) - unat (64 :: size_t) \<le> unat sizeof_BlockHeader + 8 \<and>
   split_block_if_needed example_blocks 3 64 = example_blocks"
proof -
  have h1: "1 < length example_blocks" "64 \<le> size_blk (example_blocks ! 1)"
    and h3: "3 < length example_blocks" "64 \<le> size_blk (example_blocks ! 3)"
    by (simp_all add: example_blocks_def)
  have g1: "unat sizeof_BlockHeader + 8 < unat (size_blk (example_blocks ! 1)) - unat (64 :: size_t)"
    and g3: "unat (size_blk (example_blocks ! 3)) - unat (64 :: size_t) \<le> unat sizeof_BlockHeader + 8"
    and v: "unat (size_blk (example_blocks ! 1)) - unat (64 :: size_t) - unat sizeof_BlockHeader = 888"
    by (simp_all add: example_blocks_def)
  note a = split_block_spec [OF h1]
  note b = split_block_spec [OF h3]
  show ?thesis using a b h1 h3 g1 g3 v by simp
qed

section \<open>The 32-bit int\<close>

lemma sint_of_small: "unat x < 2147483648 \<Longrightarrow> sint x = int (unat x)" for x :: c_int
proof -
  assume a: "unat x < 2147483648"
  have e: "uint x = int (unat x)" by simp
  then have u: "uint x < 2147483648" using a by linarith
  have u0: "0 \<le> uint x" by simp
  have l: "- (2 ^ 31) \<le> uint x" by (rule order_trans [OF _ u0]) simp
  have h: "uint x < 2 ^ 31" by (rule order_less_le_trans [OF u]) simp
  have "signed_take_bit 31 (uint x) = uint x"
    by (rule signed_take_bit_int_eq_self [OF l h])
  then have "sint x = uint x" by (simp add: sint_uint)
  then show ?thesis unfolding e .
qed

lemma not_sless0: "unat x < 2147483648 \<Longrightarrow> \<not> x <s 0" for x :: c_int
  using sint_of_small [of x] by (simp add: word_sless_alt)

lemma unat_succ: "unat x < 2147483647 \<Longrightarrow> unat (x + 1) = unat x + 1" for x :: c_int
proof -
  assume "unat x < 2147483647"
  then have "unat x + unat (1 :: c_int) < 2 ^ LENGTH(32)" by simp
  then show ?thesis using unat_add_lem [THEN iffD1, of x 1] by simp
qed

lemma unat_of_nat32: "n < 4294967296 \<Longrightarrow> unat (of_nat n :: c_int) = n"
  by (simp add: unat_of_nat)

lemma of_nat_Suc32: "(of_nat (Suc n) :: c_int) = of_nat n + 1"
  by simp

section \<open>Reading and writing a block\<close>

lemma find_block_by_id_Some:
  "find_block_by_id bs i = Some k \<Longrightarrow> k < length bs \<and> \<not> free (bs ! k) \<and> id_blk (bs ! k) = i"
proof (induction bs arbitrary: k)
  case Nil
  then show ?case by simp
next
  case (Cons b bs)
  then show ?case by (auto split: if_splits)
qed

lemma allocator_init_id: "g_head s \<noteq> [] \<Longrightarrow> allocator_init s = s"
  by (simp add: allocator_init_def)

lemma range_check_passes:
  "unat off + unat n \<le> unat r \<Longrightarrow> \<not> off + n > r" for off n r :: size_t
proof -
  assume a: "unat off + unat n \<le> unat r"
  have "unat r < 2 ^ 64" using unsigned_less [of r] by simp
  then have "unat off + unat n < 2 ^ LENGTH(64)" using a by simp
  then have "unat (off + n) = unat off + unat n" by (rule unat_add_lem [THEN iffD1])
  then show ?thesis using a by (simp add: word_less_nat_alt)
qed

lemma of_nat_offset_inj:
  "j < unat n \<Longrightarrow> j' < unat n \<Longrightarrow> p + of_nat j = p + of_nat j' \<Longrightarrow> j = j'"
  for n p :: size_t
proof -
  assume j: "j < unat n" and j': "j' < unat n" and e: "p + of_nat j = p + of_nat j'"
  have b: "unat n < 2 ^ LENGTH(64)" by (rule unsigned_less)
  have "(of_nat j :: size_t) = of_nat j'" using e by simp
  then have "unat (of_nat j :: size_t) = unat (of_nat j' :: size_t)" by simp
  moreover have "unat (of_nat j :: size_t) = j" using j b by (simp add: unat_of_nat)
  moreover have "unat (of_nat j' :: size_t) = j'" using j' b by (simp add: unat_of_nat)
  ultimately show ?thesis by simp
qed

lemma read_fold:
  "fold (read_step h base p) [0..<m] (c, g, d) = (c', g', d') \<Longrightarrow>
   length d' = length d \<and>
   (\<forall>j < length d. d' ! j = (if j < m then h (p + of_nat j) else d ! j)) \<and>
   (g' \<longleftrightarrow> g \<or> (\<exists>j < m. is_garbage (h (p + of_nat j))))"
proof (induction m arbitrary: c' g' d')
  case 0
  then show ?case by simp
next
  case (Suc m)
  obtain c1 g1 d1 where f: "fold (read_step h base p) [0..<m] (c, g, d) = (c1, g1, d1)"
    by (metis prod_cases3)
  note ih = Suc.IH [OF f]
  have st: "read_step h base p m (c1, g1, d1) = (c', g', d')"
    using Suc.prems f by simp
  have d': "d' = d1[m := h (p + of_nat m)]"
    and g': "g' \<longleftrightarrow> g1 \<or> is_garbage (h (p + of_nat m))"
    using st by (auto simp: read_step_def Let_def is_garbage_def split: if_splits)
  show ?case using ih d' g' by (auto simp: nth_list_update less_Suc_eq)
qed

lemma write_fold:
  "fold (write_step base p src) [0..<m] (c, h) = (c', h') \<Longrightarrow> m \<le> unat (n :: size_t) \<Longrightarrow>
   (\<forall>j < m. h' (p + of_nat j) = src ! j) \<and>
   (\<forall>a. (\<forall>j < m. a \<noteq> p + of_nat j) \<longrightarrow> h' a = h a)"
proof (induction m arbitrary: c' h')
  case 0
  then show ?case by simp
next
  case (Suc m)
  obtain c1 h1 where f: "fold (write_step base p src) [0..<m] (c, h) = (c1, h1)"
    by (metis surj_pair)
  have m: "m \<le> unat n" "m < unat n" using Suc.prems(2) by simp_all
  note ih = Suc.IH [OF f m(1)]
  have st: "write_step base p src m (c1, h1) = (c', h')"
    using Suc.prems f by simp
  have h': "h' = h1(p + of_nat m := src ! m)"
    using st by (auto simp: write_step_def)
  have ne: "p + of_nat j \<noteq> p + of_nat m" if "j < m" for j
    using of_nat_offset_inj [of j n m p] that m by auto
  show ?case using ih h' ne by (auto simp: less_Suc_eq)
qed

lemma allocator_read_found:
  assumes fb: "find_block_by_id (g_head s) i = Some k"
    and i0: "\<not> i <s 0"
    and n0: "n \<noteq> 0"
    and rng: "unat off + unat n \<le> unat (requested_size (g_head s ! k))"
    and buf: "unat n \<le> length d"
  shows "\<exists>ok d' s'. allocator_read i off (Some d) n s = (ok, Some d', s') \<and>
           length d' = length d \<and>
           (\<forall>j < unat n. d' ! j = g_heap s (start (g_head s ! k) + off + of_nat j)) \<and>
           (ok \<longleftrightarrow> (\<forall>j < unat n. g_heap s (start (g_head s ! k) + off + of_nat j) \<noteq> 0xCD \<and>
                                  g_heap s (start (g_head s ! k) + off + of_nat j) \<noteq> 0xDD)) \<and>
           g_heap s' = g_heap s"
proof -
  have ne: "g_head s \<noteq> []" using fb by auto
  note fk = find_block_by_id_Some [OF fb]
  define p where "p = start (g_head s ! k) + off"
  obtain c g d' where
    f: "fold (read_step (g_heap s) (g_heap_addr s) p) [0..<unat n] (g_cache s, False, d) = (c, g, d')"
    by (metis prod_cases3)
  note rf = read_fold [OF f]
  have r: "allocator_read i off (Some d) n s = (\<not> g, Some d', s\<lparr>g_cache := c\<rparr>)"
    using fb fk i0 n0 range_check_passes [OF rng] f
    by (simp add: allocator_read_def allocator_init_id [OF ne] Let_def p_def)
  have bytes: "\<forall>j < unat n. d' ! j = g_heap s (p + of_nat j)"
    using rf buf by auto
  have flag: "\<not> g \<longleftrightarrow> (\<forall>j < unat n. g_heap s (p + of_nat j) \<noteq> 0xCD \<and> g_heap s (p + of_nat j) \<noteq> 0xDD)"
    using rf by (auto simp: is_garbage_def PATTERN_UNINITIALIZED_def PATTERN_FREED_def)
  show ?thesis using r rf bytes flag unfolding p_def by auto
qed

lemma allocator_write_found:
  assumes fb: "find_block_by_id (g_head s) i = Some k"
    and i0: "\<not> i <s 0"
    and n0: "n \<noteq> 0"
    and rng: "unat off + unat n \<le> unat (requested_size (g_head s ! k))"
    and buf: "unat n \<le> length src"
  shows "fst (allocator_write i off (Some src) n s) \<and>
         (\<forall>j < unat n. g_heap (snd (allocator_write i off (Some src) n s))
                          (start (g_head s ! k) + off + of_nat j) = src ! j) \<and>
         (\<forall>a. (\<forall>j < unat n. a \<noteq> start (g_head s ! k) + off + of_nat j) \<longrightarrow>
              g_heap (snd (allocator_write i off (Some src) n s)) a = g_heap s a) \<and>
         g_head (snd (allocator_write i off (Some src) n s)) = g_head s"
proof -
  have ne: "g_head s \<noteq> []" using fb by auto
  note fk = find_block_by_id_Some [OF fb]
  define p where "p = start (g_head s ! k) + off"
  obtain c h where
    f: "fold (write_step (g_heap_addr s) p src) [0..<unat n] (g_cache s, g_heap s) = (c, h)"
    by (metis surj_pair)
  note wf = write_fold [OF f order_refl]
  have r: "allocator_write i off (Some src) n s = (True, s\<lparr>g_cache := c, g_heap := h\<rparr>)"
    using fb fk i0 n0 range_check_passes [OF rng] f
    by (simp add: allocator_write_def allocator_init_id [OF ne] Let_def p_def)
  show ?thesis using r wf unfolding p_def by simp
qed

section \<open>The invariant of the block list\<close>

lemma unat_HEAP_SIZE [simp]: "unat HEAP_SIZE = 65536"
  by (simp add: HEAP_SIZE_def)

lemma chain_Cons:
  "chain a (b # bs) \<longleftrightarrow>
     unat (addr b) = a \<and> start b = addr b + sizeof_BlockHeader \<and>
     (if bs = [] then size_blk b \<noteq> 0 \<and> a + 56 + unat (size_blk b) = 65536
      else chain (a + 56 + unat (size_blk b)) bs)"
  by (cases bs) auto

lemma chain_bound: "chain a bs \<Longrightarrow> a + 56 < 65536"
proof (induction bs arbitrary: a)
  case Nil
  then show ?case by simp
next
  case (Cons b bs)
  show ?case
  proof (cases "bs = []")
    case True
    then have "unat (size_blk b) \<noteq> 0" "a + 56 + unat (size_blk b) = 65536"
      using Cons.prems by (simp_all add: chain_Cons unat_eq_zero)
    then show ?thesis by simp
  next
    case False
    then have "chain (a + 56 + unat (size_blk b)) bs" using Cons.prems by (simp add: chain_Cons)
    from Cons.IH [OF this] show ?thesis by simp
  qed
qed

lemma chain_nth:
  "chain a bs \<Longrightarrow> k < length bs \<Longrightarrow>
   unat (addr (bs ! k)) + 56 < 65536 \<and> start (bs ! k) = addr (bs ! k) + sizeof_BlockHeader"
proof (induction bs arbitrary: a k)
  case Nil
  then show ?case by simp
next
  case (Cons b bs)
  show ?case
  proof (cases k)
    case 0
    then show ?thesis using Cons.prems chain_bound [OF Cons.prems(1)] by (simp add: chain_Cons)
  next
    case (Suc k')
    then have "bs \<noteq> []" using Cons.prems by auto
    then have "chain (a + 56 + unat (size_blk b)) bs" using Cons.prems by (simp add: chain_Cons)
    from Cons.IH [OF this, of k'] show ?thesis using Suc Cons.prems by simp
  qed
qed

lemma chain_start_in_heap:
  assumes "chain a bs" "k < length bs"
  shows "unat (addr (bs ! k) + sizeof_BlockHeader) < 65536"
proof -
  have b: "unat (addr (bs ! k)) + 56 < 65536" using chain_nth [OF assms] by simp
  then have "unat (addr (bs ! k)) + unat sizeof_BlockHeader < 2 ^ LENGTH(64)" by simp
  then have "unat (addr (bs ! k) + sizeof_BlockHeader) = unat (addr (bs ! k)) + unat sizeof_BlockHeader"
    by (rule unat_add_lem [THEN iffD1])
  then show ?thesis using b by simp
qed

lemma chain_update:
  "chain a bs \<Longrightarrow> k < length bs \<Longrightarrow> addr b' = addr (bs ! k) \<Longrightarrow>
   size_blk b' = size_blk (bs ! k) \<Longrightarrow> start b' = addr b' + sizeof_BlockHeader \<Longrightarrow>
   chain a (bs[k := b'])"
proof (induction bs arbitrary: a k)
  case Nil
  then show ?case by simp
next
  case (Cons b bs)
  show ?case
  proof (cases k)
    case 0
    then show ?thesis using Cons.prems by (simp add: chain_Cons)
  next
    case (Suc k')
    then have ne: "bs \<noteq> []" using Cons.prems by auto
    then have "chain (a + 56 + unat (size_blk b)) bs" using Cons.prems by (simp add: chain_Cons)
    from Cons.IH [OF this, of k'] show ?thesis using Suc Cons.prems ne by (simp add: chain_Cons)
  qed
qed


lemma chain_nth_end:
  "chain a bs \<Longrightarrow> k < length bs \<Longrightarrow>
   unat (addr (bs ! k)) + 56 + unat (size_blk (bs ! k)) \<le> 65536"
proof (induction bs arbitrary: a k)
  case Nil
  then show ?case by simp
next
  case (Cons b bs)
  show ?case
  proof (cases "bs = []")
    case True
    then show ?thesis using Cons.prems by (simp add: chain_Cons)
  next
    case False
    then have c: "chain (a + 56 + unat (size_blk b)) bs" using Cons.prems by (simp add: chain_Cons)
    show ?thesis
    proof (cases k)
      case 0
      then show ?thesis using chain_bound [OF c] Cons.prems by (simp add: chain_Cons)
    next
      case (Suc k')
      from Cons.IH [OF c, of k'] show ?thesis using Suc Cons.prems by simp
    qed
  qed
qed

lemma chain_replace2:
  "chain a bs \<Longrightarrow> k < length bs \<Longrightarrow>
   addr b1 = addr (bs ! k) \<Longrightarrow> start b1 = addr b1 + sizeof_BlockHeader \<Longrightarrow>
   unat (addr b2) = unat (addr (bs ! k)) + 56 + unat (size_blk b1) \<Longrightarrow>
   start b2 = addr b2 + sizeof_BlockHeader \<Longrightarrow>
   unat (size_blk b1) + 56 + unat (size_blk b2) = unat (size_blk (bs ! k)) \<Longrightarrow>
   size_blk b2 \<noteq> 0 \<Longrightarrow>
   chain a (take k bs @ [b1, b2] @ drop (Suc k) bs)"
proof (induction bs arbitrary: a k)
  case Nil
  then show ?case by simp
next
  case (Cons b bs)
  show ?case
  proof (cases k)
    case 0
    have sz: "unat (size_blk b) = unat (size_blk b1) + 56 + unat (size_blk b2)"
      using Cons.prems 0 by simp
    show ?thesis using Cons.prems(1-6,8) 0 by (auto simp: chain_Cons sz ac_simps)
  next
    case (Suc k')
    then have ne: "bs \<noteq> []" using Cons.prems by auto
    then have "chain (a + 56 + unat (size_blk b)) bs" using Cons.prems by (simp add: chain_Cons)
    from Cons.IH [OF this, of k'] show ?thesis using Suc Cons.prems ne by (simp add: chain_Cons)
  qed
qed

lemma chain_split:
  assumes c: "chain a bs" and k: "k < length bs" and le: "sz \<le> size_blk (bs ! k)"
  shows "chain a (split_block_if_needed bs k sz)"
proof (cases "64 < unat (size_blk (bs ! k)) - unat sz")
  case False
  then have "size_blk (bs ! k) - sz \<le> sizeof_BlockHeader + 8" using split_test [OF le] by simp
  then show ?thesis using c by (simp add: split_block_if_needed_def Let_def)
next
  case True
  then have t: "\<not> size_blk (bs ! k) - sz \<le> sizeof_BlockHeader + 8"
    using split_test [OF le] by simp
  define b where "b = bs ! k"
  define na where "na = addr b + sizeof_BlockHeader + sz"
  define b2 where "b2 = \<lparr>addr = na, id_blk = -1, start = na + sizeof_BlockHeader,
      size_blk = size_blk b - sz - sizeof_BlockHeader, requested_size = 0, free = True,
      cacheable = False, cache_hits = 0\<rparr>"
  have eq: "split_block_if_needed bs k sz = take k bs @ [b\<lparr>size_blk := sz\<rparr>, b2] @ drop (Suc k) bs"
    using t by (simp add: split_block_if_needed_def Let_def b_def b2_def na_def)
  have e: "unat (addr b) + 56 + unat (size_blk b) \<le> 65536"
    using chain_nth_end [OF c k] by (simp add: b_def)
  have szle: "unat sz \<le> unat (size_blk b)" using le by (simp add: b_def word_le_nat_alt)
  have "unat (addr b) + unat sizeof_BlockHeader < 2 ^ LENGTH(64)" using e by simp
  then have u1: "unat (addr b + sizeof_BlockHeader) = unat (addr b) + 56"
    using unat_add_lem [THEN iffD1, of "addr b" sizeof_BlockHeader] by simp
  have "unat (addr b + sizeof_BlockHeader) + unat sz < 2 ^ LENGTH(64)" using e szle u1 by simp
  then have u2: "unat na = unat (addr b) + 56 + unat sz"
    using unat_add_lem [THEN iffD1, of "addr b + sizeof_BlockHeader" sz] u1 by (simp add: na_def)
  have rs: "unat (size_blk b2) = unat (size_blk b) - unat sz - 56"
    using split_rest_size [OF le True] by (simp add: b2_def b_def)
  have nz: "size_blk b2 \<noteq> 0" using rs True by (auto simp: b_def)
  have st: "start (b\<lparr>size_blk := sz\<rparr>) = addr (b\<lparr>size_blk := sz\<rparr>) + sizeof_BlockHeader"
    using chain_nth [OF c k] by (simp add: b_def)
  show ?thesis
    unfolding eq
    apply (rule chain_replace2 [OF c k])
    using u2 rs True st nz szle by (simp_all add: b_def b2_def)
qed

lemma chain_coalesce: "chain a bs \<Longrightarrow> chain a (coalesce_free_blocks bs)"
proof (induction bs arbitrary: a rule: coalesce_free_blocks.induct)
  case 1
  then show ?case by simp
next
  case (2 cur)
  then show ?case by simp
next
  case (3 cur nxt rest)
  show ?case
  proof (cases "free cur \<and> free nxt \<and> addr cur + sizeof_BlockHeader + size_blk cur = addr nxt")
    case False
    have "chain (a + 56 + unat (size_blk cur)) (nxt # rest)" using "3.prems" by simp
    from "3.IH"(2) [OF False this] show ?thesis using False "3.prems"
      by (cases "coalesce_free_blocks (nxt # rest)") auto
  next
    case True
    define m where "m = cur\<lparr>size_blk := size_blk cur + (sizeof_BlockHeader + size_blk nxt),
                             requested_size := 0\<rparr>"
    have c2: "chain (a + 56 + unat (size_blk cur)) (nxt # rest)" using "3.prems" by simp
    have e: "a + 56 + unat (size_blk cur) + 56 + unat (size_blk nxt) \<le> 65536"
      using chain_nth_end [OF c2, of 0] c2 by (simp add: chain_Cons)
    have "unat sizeof_BlockHeader + unat (size_blk nxt) < 2 ^ LENGTH(64)" using e by simp
    then have u1: "unat (sizeof_BlockHeader + size_blk nxt) = 56 + unat (size_blk nxt)"
      using unat_add_lem [THEN iffD1, of sizeof_BlockHeader "size_blk nxt"] by simp
    have "unat (size_blk cur) + unat (sizeof_BlockHeader + size_blk nxt) < 2 ^ LENGTH(64)"
      using e u1 by simp
    then have u2: "unat (size_blk m) = unat (size_blk cur) + 56 + unat (size_blk nxt)"
      using unat_add_lem [THEN iffD1, of "size_blk cur" "sizeof_BlockHeader + size_blk nxt"] u1
      by (simp add: m_def)
    have nz: "size_blk m \<noteq> 0" using u2 by (auto simp: unat_eq_zero [symmetric] simp del: unat_eq_zero)
    have "chain a (m # rest)"
      using "3.prems" u2 nz by (auto simp: chain_Cons m_def add.assoc split: if_splits)
    from "3.IH"(1) [OF True this [unfolded m_def]] show ?thesis using True by simp
  qed
qed

lemma used_ids_Nil [simp]: "used_ids [] = []"
  by (simp add: used_ids_def)

lemma used_ids_append [simp]: "used_ids (xs @ ys) = used_ids xs @ used_ids ys"
  by (simp add: used_ids_def)

lemma used_ids_Cons: "used_ids (b # bs) = (if free b then used_ids bs else id_blk b # used_ids bs)"
  by (simp add: used_ids_def)

lemma used_ids_coalesce: "used_ids (coalesce_free_blocks bs) = used_ids bs"
  by (induction bs rule: coalesce_free_blocks.induct) (auto simp: used_ids_Cons)

lemma used_ids_split:
  "k < length bs \<Longrightarrow> used_ids (split_block_if_needed bs k sz) = used_ids bs"
proof -
  assume k: "k < length bs"
  have "bs = take k bs @ bs ! k # drop (Suc k) bs" using k by (simp add: id_take_nth_drop)
  then have "used_ids bs = used_ids (take k bs) @ used_ids [bs ! k] @ used_ids (drop (Suc k) bs)"
    by (metis append_Cons append_Nil used_ids_append)
  then show ?thesis
    by (simp add: split_block_if_needed_def Let_def used_ids_Cons)
qed

lemma used_ids_update:
  "k < length bs \<Longrightarrow>
   used_ids (bs[k := b']) = used_ids (take k bs) @ used_ids [b'] @ used_ids (drop (Suc k) bs)"
  by (simp add: upd_conv_take_nth_drop used_ids_Cons used_ids_def)

lemma used_ids_nth:
  "k < length bs \<Longrightarrow>
   used_ids bs = used_ids (take k bs) @ used_ids [bs ! k] @ used_ids (drop (Suc k) bs)"
  using used_ids_update [of k bs "bs ! k"] by simp

lemma used_ids_update_same:
  "k < length bs \<Longrightarrow> free b' = free (bs ! k) \<Longrightarrow> id_blk b' = id_blk (bs ! k) \<Longrightarrow>
   used_ids (bs[k := b']) = used_ids bs"
  using used_ids_update [of k bs b'] used_ids_nth [of k bs] by (simp add: used_ids_Cons)

lemma not_sless_zero: "unat x < 65536 \<Longrightarrow> \<not> x <s 0" for x :: size_t
proof -
  assume a: "unat x < 65536"
  have "uint x = int (unat x)" by simp
  then have u: "uint x < 65536" using a by linarith
  have u0: "0 \<le> uint x" by simp
  have l: "- (2 ^ 63) \<le> uint x"
    by (rule order_trans [OF _ u0]) simp
  have h: "uint x < 2 ^ 63"
    by (rule less_trans [OF u]) simp
  have "signed_take_bit 63 (uint x) = uint x"
    by (rule signed_take_bit_int_eq_self [OF l h])
  then have "sint x = uint x" by (simp add: sint_uint)
  then show ?thesis by (simp add: word_sless_alt)
qed

lemma offset_check_passes:
  "unat x < 65536 \<Longrightarrow> \<not> (x <s 0 \<or> x \<ge> HEAP_SIZE)" for x :: size_t
  using not_sless_zero [of x] by (simp add: word_le_nat_alt HEAP_SIZE_def)

lemma heap_inv_cong:
  "g_head s' = g_head s \<Longrightarrow> g_next_id s' = g_next_id s \<Longrightarrow> heap_inv s' = heap_inv s"
  by (simp add: heap_inv_def)

lemma init_head_ne: "g_head (allocator_init s) \<noteq> []"
  by (simp add: allocator_init_def)

lemma init_next_id [simp]: "g_next_id (allocator_init s) = g_next_id s"
  by (simp add: allocator_init_def)

lemma init_heap [simp]: "g_heap (allocator_init s) = g_heap s"
  by (simp add: allocator_init_def)

lemma heap_inv_init: "heap_inv s \<Longrightarrow> heap_inv (allocator_init s)"
  by (auto simp: heap_inv_def allocator_init_def used_ids_Cons HEAP_SIZE_def sizeof_BlockHeader_def)

lemma heap_inv_chain: "heap_inv s \<Longrightarrow> chain 0 (g_head (allocator_init s))"
  using heap_inv_init [of s] init_head_ne [of s] by (simp add: heap_inv_def)

lemma malloc_fit:
  assumes sz: "sz \<noteq> 0"
    and ff: "find_fit (g_head (allocator_init s)) (align_size sz) strategy = Some k"
  shows "g_head (snd (allocator_malloc sz strategy s)) =
           (split_block_if_needed (g_head (allocator_init s)) k (align_size sz))[k := malloc_block s sz k]"
    and "g_next_id (snd (allocator_malloc sz strategy s)) = g_next_id s + 1"
    and "fst (allocator_malloc sz strategy s) =
           (if start (malloc_block s sz k) <s 0 \<or> start (malloc_block s sz k) \<ge> HEAP_SIZE
            then -1 else g_next_id s)"
    and "g_heap (snd (allocator_malloc sz strategy s)) =
           memset (g_heap s) (start (malloc_block s sz k)) PATTERN_UNINITIALIZED
             (size_blk (malloc_block s sz k))"
  using sz ff by (simp_all add: allocator_malloc_def Let_def malloc_block_def)

lemma malloc_no_fit:
  "sz = 0 \<or> find_fit (g_head (allocator_init s)) (align_size sz) strategy = None \<Longrightarrow>
   g_head (snd (allocator_malloc sz strategy s)) = g_head (allocator_init s) \<and>
   g_next_id (snd (allocator_malloc sz strategy s)) = g_next_id s \<and>
   fst (allocator_malloc sz strategy s) = -1"
  by (auto simp: allocator_malloc_def Let_def)

text \<open>The block list after a \<open>free\<close> that finds its block.\<close>

lemma free_head:
  "find_block_by_id (g_head s) i = Some k \<Longrightarrow> \<not> i <s 0 \<Longrightarrow>
   g_head (allocator_free i s) =
     coalesce_free_blocks ((g_head s)[k := (g_head s ! k)\<lparr>free := True, id_blk := -1,
                                            cacheable := False, cache_hits := 0\<rparr>])"
  by (auto simp: allocator_free_def allocator_init_def Let_def)

lemma fit_facts:
  assumes ff: "find_fit bs sz strategy = Some k"
  shows "fits bs sz k"
proof (cases strategy)
  case First
  then show ?thesis using ff find_fit_First_iff [of bs sz k] by simp
next
  case Best
  then show ?thesis using ff find_fit_Best_iff [of bs sz k] by simp
next
  case Worst
  then show ?thesis using ff find_fit_Worst_iff [of bs sz k] by simp
qed

lemma split_length_ge: "length bs \<le> length (split_block_if_needed bs k sz)"
  by (auto simp: split_block_if_needed_def Let_def)

lemma split_nth_free:
  "k < length bs \<Longrightarrow> free (bs ! k) \<Longrightarrow> free (split_block_if_needed bs k sz ! k)"
  by (simp add: split_block_if_needed_def Let_def nth_append)

lemma split_nth_addr:
  "k < length bs \<Longrightarrow> addr (split_block_if_needed bs k sz ! k) = addr (bs ! k)"
  by (simp add: split_block_if_needed_def Let_def nth_append)

lemma heap_inv_malloc_fit:
  assumes inv: "heap_inv s" and sz: "sz \<noteq> 0"
    and ff: "find_fit (g_head (allocator_init s)) (align_size sz) strategy = Some k"
  shows "unat (g_next_id s) < 2147483647 \<Longrightarrow> heap_inv (snd (allocator_malloc sz strategy s))"
    and "fst (allocator_malloc sz strategy s) = g_next_id s"
proof -
  define bs where "bs = g_head (allocator_init s)"
  define bs1 where "bs1 = split_block_if_needed bs k (align_size sz)"
  define blk where "blk = malloc_block s sz k"
  note inv' = heap_inv_init [OF inv]
  have ch: "chain 0 bs" using heap_inv_chain [OF inv] by (simp add: bs_def)
  have fk: "fits bs (align_size sz) k" using fit_facts [OF ff] by (simp add: bs_def)
  then have k: "k < length bs" and fr: "free (bs ! k)" and le: "align_size sz \<le> size_blk (bs ! k)"
    by (simp_all add: fits_def)
  have k1: "k < length bs1" using k split_length_ge [of bs k "align_size sz"] by (simp add: bs1_def)
  have ch1: "chain 0 bs1" unfolding bs1_def by (rule chain_split [OF ch k le])
  have blk: "blk = (bs1 ! k)\<lparr>free := False, id_blk := g_next_id s, cacheable := True,
      cache_hits := 0, start := addr (bs1 ! k) + sizeof_BlockHeader, requested_size := sz\<rparr>"
    by (simp add: blk_def malloc_block_def bs1_def bs_def Let_def)
  have ch2: "chain 0 (bs1[k := blk])"
    by (rule chain_update [OF ch1 k1]) (simp_all add: blk)
  have fr1: "free (bs1 ! k)" unfolding bs1_def by (rule split_nth_free [OF k fr])
  have ids1: "used_ids bs1 = used_ids bs" unfolding bs1_def by (rule used_ids_split [OF k])
  have old: "distinct (used_ids bs)" "\<forall>x \<in> set (used_ids bs). unat x < unat (g_next_id s)"
    "unat (g_next_id s) < 2147483648"
    using inv' by (simp_all add: heap_inv_def bs_def)
  have split: "used_ids bs1 = used_ids (take k bs1) @ used_ids (drop (Suc k) bs1)"
    using used_ids_nth [OF k1] fr1 by (simp add: used_ids_Cons)
  have new: "used_ids (bs1[k := blk]) = used_ids (take k bs1) @ [g_next_id s] @ used_ids (drop (Suc k) bs1)"
    using used_ids_update [OF k1, of blk] by (simp add: used_ids_Cons blk)
  have notin: "g_next_id s \<notin> set (used_ids bs1)" using old ids1 by auto
  have d: "distinct (used_ids (bs1[k := blk]))"
    using old(1) notin unfolding new ids1 [symmetric] split by auto
  have hd: "g_head (snd (allocator_malloc sz strategy s)) = bs1[k := blk]"
    and nx: "g_next_id (snd (allocator_malloc sz strategy s)) = g_next_id s + 1"
    using malloc_fit(1,2) [OF sz ff] by (simp_all add: bs1_def bs_def blk_def)
  show "heap_inv (snd (allocator_malloc sz strategy s))" if cnt: "unat (g_next_id s) < 2147483647"
  proof -
    have su: "unat (g_next_id s + 1) = unat (g_next_id s) + 1" by (rule unat_succ [OF cnt])
    have r: "\<forall>x \<in> set (used_ids (bs1[k := blk])). unat x < unat (g_next_id s + 1)"
    proof
      fix x assume "x \<in> set (used_ids (bs1[k := blk]))"
      then have "x = g_next_id s \<or> x \<in> set (used_ids bs1)" unfolding new split by auto
      then consider "x = g_next_id s" | "unat x < unat (g_next_id s)" using old(2) ids1 by auto
      then show "unat x < unat (g_next_id s + 1)" unfolding su by cases simp_all
    qed
    have "unat (g_next_id s + 1) < 2147483648" using cnt su by simp
    then show ?thesis using ch2 d r by (simp add: heap_inv_def hd nx)
  qed
  have "start blk = addr (bs1 ! k) + sizeof_BlockHeader" by (simp add: blk)
  then have "unat (start blk) < 65536" using chain_start_in_heap [OF ch1 k1] by simp
  then have "\<not> (start blk <s 0 \<or> start blk \<ge> HEAP_SIZE)" by (rule offset_check_passes)
  then show "fst (allocator_malloc sz strategy s) = g_next_id s"
    using malloc_fit(3) [OF sz ff] by (simp add: blk_def)
qed

lemma heap_inv_malloc:
  "heap_inv s \<Longrightarrow> unat (g_next_id s) < 2147483647 \<Longrightarrow>
   heap_inv (snd (allocator_malloc sz strategy s))"
proof (cases "sz = 0 \<or> find_fit (g_head (allocator_init s)) (align_size sz) strategy = None")
  case True
  assume inv: "heap_inv s"
  have "heap_inv (snd (allocator_malloc sz strategy s)) = heap_inv (allocator_init s)"
    using malloc_no_fit [OF True] by (intro heap_inv_cong) simp_all
  then show ?thesis using heap_inv_init [OF inv] by simp
next
  case False
  assume inv: "heap_inv s" and cnt: "unat (g_next_id s) < 2147483647"
  from False obtain k where "sz \<noteq> 0"
    "find_fit (g_head (allocator_init s)) (align_size sz) strategy = Some k" by auto
  then show ?thesis using heap_inv_malloc_fit(1) [OF inv _ _ cnt] by simp
qed

lemma counter_below_max:
  "heap_inv s \<Longrightarrow> sint (g_next_id s) < 2147483647 \<Longrightarrow> unat (g_next_id s) < 2147483647"
proof -
  assume inv: "heap_inv s" and c: "sint (g_next_id s) < 2147483647"
  have "unat (g_next_id s) < 2147483648" using inv by (simp add: heap_inv_def)
  then have "sint (g_next_id s) = int (unat (g_next_id s))" by (rule sint_of_small)
  then show ?thesis using c by linarith
qed

lemma heap_inv_free: "heap_inv s \<Longrightarrow> heap_inv (allocator_free i s)"
proof -
  assume inv: "heap_inv s"
  define s1 where "s1 = allocator_init s"
  note inv1 = heap_inv_init [OF inv, folded s1_def]
  have ch: "chain 0 (g_head s1)" using heap_inv_chain [OF inv] by (simp add: s1_def)
  show ?thesis
  proof (cases "i <s 0 \<or> find_block_by_id (g_head s1) i = None")
    case True
    then have "allocator_free i s = s1" by (auto simp: allocator_free_def Let_def s1_def)
    then show ?thesis using inv1 by simp
  next
    case False
    then obtain k where fb: "find_block_by_id (g_head s1) i = Some k" and i0: "\<not> i <s 0" by auto
    note fk = find_block_by_id_Some [OF fb]
    define hdr where "hdr = (g_head s1 ! k)\<lparr>free := True, id_blk := -1, cacheable := False,
                                             cache_hits := 0\<rparr>"
    have hd: "g_head (allocator_free i s) = coalesce_free_blocks ((g_head s1)[k := hdr])"
      and nx: "g_next_id (allocator_free i s) = g_next_id s1"
      using fb i0 by (simp_all add: allocator_free_def Let_def s1_def [symmetric] hdr_def)
    have k: "k < length (g_head s1)" using fk by simp
    have "chain 0 ((g_head s1)[k := hdr])"
      by (rule chain_update [OF ch k]) (use chain_nth [OF ch k] in \<open>simp_all add: hdr_def\<close>)
    then have c: "chain 0 (g_head (allocator_free i s))" unfolding hd by (rule chain_coalesce)
    have ids: "used_ids (g_head (allocator_free i s)) =
               used_ids (take k (g_head s1)) @ used_ids (drop (Suc k) (g_head s1))"
      unfolding hd used_ids_coalesce using used_ids_update [OF k, of hdr]
      by (simp add: used_ids_Cons hdr_def)
    have old: "used_ids (g_head s1) =
               used_ids (take k (g_head s1)) @ [i] @ used_ids (drop (Suc k) (g_head s1))"
      using used_ids_nth [OF k] fk by (simp add: used_ids_Cons)
    have o: "distinct (used_ids (g_head s1))"
      "\<forall>x \<in> set (used_ids (g_head s1)). unat x < unat (g_next_id s1)"
      "unat (g_next_id s1) < 2147483648"
      using inv1 by (simp_all add: heap_inv_def)
    show ?thesis
      using c o unfolding heap_inv_def ids nx old by auto
  qed
qed

lemma heap_inv_set_cacheable: "heap_inv s \<Longrightarrow> heap_inv (allocator_set_block_cacheable i c s)"
proof -
  assume inv: "heap_inv s"
  define s1 where "s1 = allocator_init s"
  note inv1 = heap_inv_init [OF inv, folded s1_def]
  have ch: "chain 0 (g_head s1)" using heap_inv_chain [OF inv] by (simp add: s1_def)
  show ?thesis
  proof (cases "i <s 0 \<or> find_block_by_id (g_head s1) i = None")
    case True
    then have "allocator_set_block_cacheable i c s = s1"
      by (auto simp: allocator_set_block_cacheable_def Let_def s1_def)
    then show ?thesis using inv1 by simp
  next
    case False
    then obtain k where fb: "find_block_by_id (g_head s1) i = Some k" and i0: "\<not> i <s 0" by auto
    have k: "k < length (g_head s1)" using find_block_by_id_Some [OF fb] by simp
    have hd: "g_head (allocator_set_block_cacheable i c s) =
                (g_head s1)[k := (g_head s1 ! k)\<lparr>cacheable := c\<rparr>]"
      and nx: "g_next_id (allocator_set_block_cacheable i c s) = g_next_id s1"
      using fb i0 by (simp_all add: allocator_set_block_cacheable_def Let_def s1_def [symmetric])
    have c: "chain 0 (g_head (allocator_set_block_cacheable i c s))"
      unfolding hd by (rule chain_update [OF ch k]) (use chain_nth [OF ch k] in simp_all)
    have ids: "used_ids (g_head (allocator_set_block_cacheable i c s)) = used_ids (g_head s1)"
      unfolding hd by (rule used_ids_update_same [OF k]) simp_all
    show ?thesis using inv1 c by (simp add: heap_inv_def ids nx)
  qed
qed

lemma heap_inv_access: "heap_inv s \<Longrightarrow> heap_inv (allocator_access i w s)"
proof -
  assume inv: "heap_inv s"
  define s1 where "s1 = allocator_init s"
  note inv1 = heap_inv_init [OF inv, folded s1_def]
  have ch: "chain 0 (g_head s1)" using heap_inv_chain [OF inv] by (simp add: s1_def)
  show ?thesis
  proof (cases "i <s 0 \<or> find_block_by_id (g_head s1) i = None")
    case True
    then have "allocator_access i w s = s1"
      by (auto simp: allocator_access_def Let_def s1_def)
    then show ?thesis using inv1 by simp
  next
    case False
    then obtain k where fb: "find_block_by_id (g_head s1) i = Some k" and i0: "\<not> i <s 0" by auto
    have k: "k < length (g_head s1)" using find_block_by_id_Some [OF fb] by simp
    show ?thesis
    proof (cases "cacheable (g_head s1 ! k)")
      case False
      then have "allocator_access i w s = s1"
        using fb i0 by (simp add: allocator_access_def Let_def s1_def [symmetric])
      then show ?thesis using inv1 by simp
    next
      case True
      have hd: "g_head (allocator_access i w s) =
                  (g_head s1)[k := (g_head s1 ! k)\<lparr>cache_hits := cache_hits (g_head s1 ! k) + 1\<rparr>]"
        and nx: "g_next_id (allocator_access i w s) = g_next_id s1"
        using fb i0 True by (simp_all add: allocator_access_def Let_def s1_def [symmetric])
      have c: "chain 0 (g_head (allocator_access i w s))"
        unfolding hd by (rule chain_update [OF ch k]) (use chain_nth [OF ch k] in simp_all)
      have ids: "used_ids (g_head (allocator_access i w s)) = used_ids (g_head s1)"
        unfolding hd by (rule used_ids_update_same [OF k]) simp_all
      show ?thesis using inv1 c by (simp add: heap_inv_def ids nx)
    qed
  qed
qed

lemma read_head:
  "g_head (snd (snd (allocator_read i off dst n s))) = g_head (allocator_init s) \<and>
   g_next_id (snd (snd (allocator_read i off dst n s))) = g_next_id s"
  by (auto simp: allocator_read_def Let_def split: option.splits prod.splits)

lemma write_head:
  "g_head (snd (allocator_write i off src n s)) = g_head (allocator_init s) \<and>
   g_next_id (snd (allocator_write i off src n s)) = g_next_id s"
  by (auto simp: allocator_write_def Let_def split: option.splits prod.splits)

lemma heap_inv_read: "heap_inv s \<Longrightarrow> heap_inv (snd (snd (allocator_read i off dst n s)))"
  using heap_inv_init [of s] heap_inv_cong [of "snd (snd (allocator_read i off dst n s))" "allocator_init s"]
    read_head [of i off dst n s] by simp

lemma heap_inv_write: "heap_inv s \<Longrightarrow> heap_inv (snd (allocator_write i off src n s))"
  using heap_inv_init [of s] heap_inv_cong [of "snd (allocator_write i off src n s)" "allocator_init s"]
    write_head [of i off src n s] by simp

lemma reachable_heap_inv: "reachable s \<Longrightarrow> heap_inv s"
proof (induction rule: reachable.induct)
  case (r_init base)
  show ?case by (simp add: heap_inv_def initial_state_def)
next
  case (r_malloc s sz strategy)
  then show ?case by (simp add: heap_inv_malloc counter_below_max)
next
  case (r_free s i)
  then show ?case by (simp add: heap_inv_free)
next
  case (r_set_cacheable s i c)
  then show ?case by (simp add: heap_inv_set_cacheable)
next
  case (r_access s i w)
  then show ?case by (simp add: heap_inv_access)
next
  case (r_read s off sz dst i)
  then show ?case by (simp add: heap_inv_read)
next
  case (r_write s off sz src i)
  then show ?case by (simp add: heap_inv_write)
next
  case (r_set_strategy s strategy)
  then show ?case by (simp add: heap_inv_def allocator_set_strategy_def)
next
  case (r_dump s)
  then show ?case by (simp add: allocator_dump_def heap_inv_init)
next
  case (r_stats s)
  then show ?case by (simp add: allocator_stats_def heap_inv_init)
next
  case (r_cache_init_default s)
  then show ?case by (simp add: heap_inv_def)
next
  case (r_cache_reset s)
  then show ?case by (simp add: heap_inv_def)
next
  case (r_cache_add_level s sb bs as lat)
  then show ?case by (simp add: heap_inv_def)
next
  case (r_cache_configure_level s idx sb bs as lat)
  then show ?case by (simp add: heap_inv_def)
qed

lemma used_block_found:
  "distinct (used_ids bs) \<Longrightarrow> k < length bs \<Longrightarrow> \<not> free (bs ! k) \<Longrightarrow>
   find_block_by_id bs (id_blk (bs ! k)) = Some k"
proof (induction bs arbitrary: k)
  case Nil
  then show ?case by simp
next
  case (Cons b bs)
  show ?case
  proof (cases k)
    case 0
    then show ?thesis using Cons.prems by simp
  next
    case (Suc k')
    have k': "k' < length bs" "\<not> free (bs ! k')" using Suc Cons.prems by simp_all
    then have "bs ! k' \<in> set (filter (\<lambda>b. \<not> free b) bs)" by simp
    then have mem: "id_blk (bs ! k') \<in> set (used_ids bs)" unfolding used_ids_def by (simp add: image_iff) blast
    have d: "distinct (used_ids bs)" using Cons.prems(1) by (simp add: used_ids_Cons split: if_splits)
    have "\<not> (\<not> free b \<and> id_blk b = id_blk (bs ! k'))"
      using Cons.prems(1) mem by (auto simp: used_ids_Cons)
    then show ?thesis using Cons.IH [OF d k'] Suc by auto
  qed
qed

lemma used_block_id_range:
  "k < length bs \<Longrightarrow> \<not> free (bs ! k) \<Longrightarrow> id_blk (bs ! k) \<in> set (used_ids bs)"
  unfolding used_ids_def by (simp add: image_iff) (metis nth_mem)

lemma reachable_block_found:
  assumes "reachable s" "k < length (g_head s)" "\<not> free (g_head s ! k)"
  shows "find_block_by_id (g_head s) (id_blk (g_head s ! k)) = Some k"
    and "\<not> id_blk (g_head s ! k) <s 0"
proof -
  have inv: "heap_inv s" by (rule reachable_heap_inv [OF assms(1)])
  show "find_block_by_id (g_head s) (id_blk (g_head s ! k)) = Some k"
    using inv assms(2,3) by (simp add: heap_inv_def used_block_found)
  have "unat (id_blk (g_head s ! k)) < unat (g_next_id s)" "unat (g_next_id s) < 2147483648"
    using inv used_block_id_range [OF assms(2,3)] by (simp_all add: heap_inv_def)
  then have "unat (id_blk (g_head s ! k)) < 2147483648" by simp
  then show "\<not> id_blk (g_head s ! k) <s 0" by (rule not_sless0)
qed

section \<open>Rejected reads and writes\<close>

text \<open>Without wrap-around the bounds check rejects a range that exceeds the requested size.\<close>

lemma range_check_rejects:
  "unat r < unat off + unat n \<Longrightarrow> unat off + unat n < 2 ^ 64 \<Longrightarrow> r < off + n"
  for off n r :: size_t
proof -
  assume a: "unat r < unat off + unat n" and b: "unat off + unat n < 2 ^ 64"
  have "unat off + unat n < 2 ^ LENGTH(64)" using b by simp
  then have "unat (off + n) = unat off + unat n" by (rule unat_add_lem [THEN iffD1])
  then show ?thesis using a by (simp add: word_less_nat_alt)
qed

text \<open>The cases in which write and read return false; nothing is stored then.\<close>

lemma allocator_write_rejects:
  "i <s 0 \<or> src = None \<or> n = 0 \<or> find_block_by_id (g_head (allocator_init s)) i = None \<or>
   (\<exists>k. find_block_by_id (g_head (allocator_init s)) i = Some k \<and>
        requested_size (g_head (allocator_init s) ! k) < off + n) \<Longrightarrow>
   \<not> fst (allocator_write i off src n s) \<and>
   g_heap (snd (allocator_write i off src n s)) = g_heap s"
  by (auto simp: allocator_write_def Let_def split: option.splits)

lemma allocator_read_rejects:
  "i <s 0 \<or> dst = None \<or> n = 0 \<or> find_block_by_id (g_head (allocator_init s)) i = None \<or>
   (\<exists>k. find_block_by_id (g_head (allocator_init s)) i = Some k \<and>
        requested_size (g_head (allocator_init s) ! k) < off + n) \<Longrightarrow>
   \<not> fst (allocator_read i off dst n s) \<and>
   fst (snd (allocator_read i off dst n s)) = dst \<and>
   g_heap (snd (snd (allocator_read i off dst n s))) = g_heap s"
  by (auto simp: allocator_read_def Let_def split: option.splits)

section \<open>The first allocation, evaluated\<close>

lemma align16: "align_size 16 = 16"
  by (simp add: align_size_def max_align_def)

lemma init_head: "g_head (allocator_init (initial_state b)) =
   [\<lparr>addr = 0, id_blk = -1, start = 56, size_blk = 65480, requested_size = 0,
     free = True, cacheable = False, cache_hits = 0\<rparr>]"
  by (simp add: allocator_init_def initial_state_def sizeof_BlockHeader_def HEAP_SIZE_def)

lemma ex_head: "g_head example_state =
   [\<lparr>addr = 0, id_blk = 0, start = 56, size_blk = 16, requested_size = 16,
     free = False, cacheable = True, cache_hits = 0\<rparr>,
    \<lparr>addr = 72, id_blk = -1, start = 128, size_blk = 65408, requested_size = 0,
     free = True, cacheable = False, cache_hits = 0\<rparr>]"
  unfolding example_state_def
  by (simp add: allocator_malloc_def Let_def align16 init_head find_fit_def
      split_block_if_needed_def sizeof_BlockHeader_def HEAP_SIZE_def initial_state_def allocator_init_def)

lemma ex_heap: "g_heap example_state = memset (\<lambda>_. 0) 56 0xCD 16"
  unfolding example_state_def
  by (simp add: allocator_malloc_def Let_def align16 init_head find_fit_def
      split_block_if_needed_def sizeof_BlockHeader_def HEAP_SIZE_def initial_state_def allocator_init_def
      PATTERN_UNINITIALIZED_def)

lemma initial_next_id: "g_next_id (initial_state b) = 0"
  by (simp add: initial_state_def)

lemma reachable_example_state: "reachable example_state"
  unfolding example_state_def by (rule r_malloc [OF r_init]) (simp_all add: initial_next_id)

lemma init_example: "allocator_init example_state = example_state"
  by (rule allocator_init_id) (simp add: ex_head)


section \<open>The value returned by an allocation\<close>

text \<open>
  \<open>allocator_free\<close> leaves the counter alone.  One pair of \<open>malloc 16\<close> and \<open>free\<close> on a heap
  that is empty or one free block gives the one free block back and advances the counter by one
  (in \<open>int\<close>, wrapping); \<open>n\<close> pairs from the fresh program leave the counter at \<open>n\<close>.
\<close>

lemma free_next_id [simp]: "g_next_id (allocator_free i s) = g_next_id s"
  by (simp add: allocator_free_def Let_def split: option.splits)

lemma init_whole_heap:
  "g_head s = [] \<or> g_head s = whole_heap_free \<Longrightarrow> g_head (allocator_init s) = whole_heap_free"
  by (auto simp: allocator_init_def whole_heap_free_def sizeof_BlockHeader_def HEAP_SIZE_def)

lemma cycle_step:
  assumes hd: "g_head s = [] \<or> g_head s = whole_heap_free"
    and n: "unat (g_next_id s) < 2147483648"
  shows "g_head (malloc_free_cycle s) = whole_heap_free"
    and "g_next_id (malloc_free_cycle s) = g_next_id s + 1"
proof -
  define s' where "s' = snd (allocator_malloc 16 First s)"
  have i: "g_head (allocator_init s) = whole_heap_free" by (rule init_whole_heap [OF hd])
  have nz: "(16 :: size_t) \<noteq> 0" by simp
  have ff: "find_fit (g_head (allocator_init s)) (align_size 16) First = Some 0"
    by (simp add: i align16 find_fit_def whole_heap_free_def)
  have blk: "malloc_block s 16 0 =
      \<lparr>addr = 0, id_blk = g_next_id s, start = 56, size_blk = 16, requested_size = 16,
       free = False, cacheable = True, cache_hits = 0\<rparr>"
    by (simp add: malloc_block_def i align16 whole_heap_free_def split_block_if_needed_def Let_def
        sizeof_BlockHeader_def)
  have hd': "g_head s' =
      [\<lparr>addr = 0, id_blk = g_next_id s, start = 56, size_blk = 16, requested_size = 16,
        free = False, cacheable = True, cache_hits = 0\<rparr>,
       \<lparr>addr = 72, id_blk = -1, start = 128, size_blk = 65408, requested_size = 0,
        free = True, cacheable = False, cache_hits = 0\<rparr>]"
    unfolding s'_def malloc_fit(1) [OF nz ff] blk
    by (simp add: i align16 whole_heap_free_def split_block_if_needed_def Let_def sizeof_BlockHeader_def)
  have ret: "fst (allocator_malloc 16 First s) = g_next_id s"
    unfolding malloc_fit(3) [OF nz ff] blk by (simp add: HEAP_SIZE_def word_sless_alt)
  have nx: "g_next_id s' = g_next_id s + 1"
    unfolding s'_def by (rule malloc_fit(2) [OF nz ff])
  have fb: "find_block_by_id (g_head s') (g_next_id s) = Some 0" by (simp add: hd')
  have pos: "\<not> g_next_id s <s 0" by (rule not_sless0 [OF n])
  have c: "malloc_free_cycle s = allocator_free (g_next_id s) s'"
    by (simp add: malloc_free_cycle_def ret s'_def)
  show "g_head (malloc_free_cycle s) = whole_heap_free"
    unfolding c free_head [OF fb pos]
    by (simp add: hd' whole_heap_free_def sizeof_BlockHeader_def)
  show "g_next_id (malloc_free_cycle s) = g_next_id s + 1"
    unfolding c by (simp add: nx)
qed

lemma cycle_iter:
  "n \<le> 2147483648 \<Longrightarrow>
   g_next_id ((malloc_free_cycle ^^ n) (initial_state b)) = of_nat n \<and>
   (g_head ((malloc_free_cycle ^^ n) (initial_state b)) = [] \<or>
    g_head ((malloc_free_cycle ^^ n) (initial_state b)) = whole_heap_free)"
proof (induction n)
  case 0
  show ?case by (simp add: initial_state_def)
next
  case (Suc n)
  define s where "s = (malloc_free_cycle ^^ n) (initial_state b)"
  have n: "n < 2147483648" using Suc.prems by simp
  have ih: "g_next_id s = of_nat n" "g_head s = [] \<or> g_head s = whole_heap_free"
    using Suc.IH n by (simp_all add: s_def)
  have "unat (of_nat n :: c_int) = n" using n by (simp add: unat_of_nat32)
  then have u: "unat (g_next_id s) < 2147483648" using n ih(1) by simp
  note st = cycle_step [OF ih(2) u]
  show ?case using st ih(1) by (simp add: s_def [symmetric])
qed

lemma wrapped_state_facts:
  "g_next_id wrapped_state = 2147483648"
  "g_head (allocator_init wrapped_state) = whole_heap_free"
proof -
  have le: "(2147483648 :: nat) \<le> 2147483648" by simp
  note c = cycle_iter [OF le, of 4096, folded wrapped_state_def]
  show "g_next_id wrapped_state = 2147483648" using c by simp
  show "g_head (allocator_init wrapped_state) = whole_heap_free"
    using c by (intro init_whole_heap) simp
qed


text \<open>
  While the counter is below \<open>INT_MAX\<close>, a successful allocation returns the old value of the
  counter, which is non-negative, advances the counter by one, marks the chosen block allocated
  under that id, and leaves the ids of the allocated blocks pairwise distinct.
\<close>

lemma allocator_malloc_id_facts:
  assumes r: "reachable s" and sz: "sz \<noteq> 0"
    and ff: "find_fit (g_head (allocator_init s)) (align_size sz) strategy = Some k"
    and cnt: "sint (g_next_id s) < 2147483647"
  shows "fst (allocator_malloc sz strategy s) = g_next_id s \<and>
         sint (g_next_id (snd (allocator_malloc sz strategy s))) = sint (g_next_id s) + 1 \<and>
         0 \<le> sint (fst (allocator_malloc sz strategy s)) \<and>
         k < length (g_head (snd (allocator_malloc sz strategy s))) \<and>
         \<not> free (g_head (snd (allocator_malloc sz strategy s)) ! k) \<and>
         id_blk (g_head (snd (allocator_malloc sz strategy s)) ! k) = fst (allocator_malloc sz strategy s) \<and>
         distinct (used_ids (g_head (snd (allocator_malloc sz strategy s))))"
proof -
  have inv: "heap_inv s" by (rule reachable_heap_inv [OF r])
  have cnt': "unat (g_next_id s) < 2147483647" by (rule counter_below_max [OF inv cnt])
  note m = heap_inv_malloc_fit [OF inv sz ff]
  note inv' = m(1) [OF cnt']
  note f = malloc_fit [OF sz ff]
  have k: "k < length (g_head (allocator_init s))"
    using fit_facts [OF ff] by (simp add: fits_def)
  then have k1: "k < length (split_block_if_needed (g_head (allocator_init s)) k (align_size sz))"
    using split_length_ge [of "g_head (allocator_init s)" k "align_size sz"] by simp
  have blk: "g_head (snd (allocator_malloc sz strategy s)) ! k = malloc_block s sz k"
    using k1 by (simp add: f(1))
  have s0: "sint (g_next_id s) = int (unat (g_next_id s))"
    by (rule sint_of_small) (use cnt' in simp)
  have "unat (g_next_id s + 1) < 2147483648" using inv' by (simp add: heap_inv_def f(2))
  then have "sint (g_next_id s + 1) = int (unat (g_next_id s + 1))" by (rule sint_of_small)
  then have s1: "sint (g_next_id s + 1) = sint (g_next_id s) + 1"
    using unat_succ [OF cnt'] s0 by simp
  have "0 \<le> sint (g_next_id s)" using s0 by simp
  moreover have "distinct (used_ids (g_head (snd (allocator_malloc sz strategy s))))"
    using inv' by (simp add: heap_inv_def)
  moreover have "k < length (g_head (snd (allocator_malloc sz strategy s)))"
    using k1 by (simp add: f(1))
  ultimately show ?thesis
    using m(2) f(2) s1 by (simp add: blk malloc_block_def Let_def)
qed



section \<open>Reading and writing allocated blocks\<close>

text \<open>
  In a block list with the layout \<open>chain\<close>, the headers are in ascending order and a later
  header starts where the payload of the block before it ends.  A position in the payload of
  one block is therefore on no header.  For a range inside the requested bytes of a block
  whose requested bytes lie in its payload, the position of byte \<open>j\<close> is computed without
  wrap-around, and it lies in the payload of the block, in the array and on no header.
\<close>

lemma chain_addr_ge: "chain a bs \<Longrightarrow> j < length bs \<Longrightarrow> a \<le> unat (addr (bs ! j))"
proof (induction bs arbitrary: a j)
  case Nil
  then show ?case by simp
next
  case (Cons b bs)
  show ?case
  proof (cases j)
    case 0
    then show ?thesis using Cons.prems by (simp add: chain_Cons)
  next
    case (Suc j')
    then have "bs \<noteq> []" using Cons.prems by auto
    then have "chain (a + 56 + unat (size_blk b)) bs" using Cons.prems by (simp add: chain_Cons)
    from Cons.IH [OF this, of j'] show ?thesis using Suc Cons.prems by simp
  qed
qed

lemma chain_order:
  "chain a bs \<Longrightarrow> i < j \<Longrightarrow> j < length bs \<Longrightarrow>
   unat (addr (bs ! i)) + 56 + unat (size_blk (bs ! i)) \<le> unat (addr (bs ! j))"
proof (induction bs arbitrary: a i j)
  case Nil
  then show ?case by simp
next
  case (Cons b bs)
  obtain j' where j: "j = Suc j'" using Cons.prems(2) by (cases j) auto
  then have "bs \<noteq> []" using Cons.prems by auto
  then have c: "chain (a + 56 + unat (size_blk b)) bs" using Cons.prems by (simp add: chain_Cons)
  show ?case
  proof (cases i)
    case 0
    have "unat (addr b) = a" using Cons.prems by (simp add: chain_Cons)
    then show ?thesis using chain_addr_ge [OF c, of j'] 0 j Cons.prems by simp
  next
    case (Suc i')
    from Cons.IH [OF c, of i' j'] show ?thesis using Suc j Cons.prems by simp
  qed
qed

lemma payload_off_headers:
  assumes c: "chain a bs" and k: "k < length bs" and m: "m < length bs"
    and x: "unat (addr (bs ! k)) + 56 \<le> x" "x < unat (addr (bs ! k)) + 56 + unat (size_blk (bs ! k))"
  shows "\<not> (unat (addr (bs ! m)) \<le> x \<and> x < unat (addr (bs ! m)) + 56)"
proof -
  consider "m < k" | "m = k" | "k < m" by linarith
  then show ?thesis
  proof cases
    case 1
    from chain_order [OF c 1 k] show ?thesis using x by simp
  next
    case 2
    then show ?thesis using x by simp
  next
    case 3
    from chain_order [OF c 3 m] show ?thesis using x by simp
  qed
qed

lemma range_addr:
  assumes c: "chain 0 bs" and k: "k < length bs"
    and fit: "requested_size (bs ! k) \<le> size_blk (bs ! k)"
    and rng: "unat (off :: size_t) + unat (n :: size_t) \<le> unat (requested_size (bs ! k))"
    and j: "j < unat n"
  shows "unat (start (bs ! k)) = unat (addr (bs ! k)) + 56"
    and "unat (start (bs ! k) + off + of_nat j) = unat (addr (bs ! k)) + 56 + unat off + j"
    and "unat off + j < unat (size_blk (bs ! k))"
    and "unat (addr (bs ! k)) + 56 + unat (size_blk (bs ! k)) \<le> 65536"
proof -
  note n = chain_nth [OF c k]
  show e: "unat (addr (bs ! k)) + 56 + unat (size_blk (bs ! k)) \<le> 65536"
    by (rule chain_nth_end [OF c k])
  have "unat (addr (bs ! k)) + unat sizeof_BlockHeader < 2 ^ LENGTH(64)" using n by simp
  then have "unat (addr (bs ! k) + sizeof_BlockHeader) = unat (addr (bs ! k)) + unat sizeof_BlockHeader"
    by (rule unat_add_lem [THEN iffD1])
  then show s: "unat (start (bs ! k)) = unat (addr (bs ! k)) + 56" using n by simp
  have "unat (requested_size (bs ! k)) \<le> unat (size_blk (bs ! k))"
    using fit by (simp add: word_le_nat_alt)
  then show o: "unat off + j < unat (size_blk (bs ! k))" using rng j by simp
  have "unat (start (bs ! k)) + unat off < 2 ^ LENGTH(64)" using s o e by simp
  then have so: "unat (start (bs ! k) + off) = unat (start (bs ! k)) + unat off"
    by (rule unat_add_lem [THEN iffD1])
  have "unat n < 2 ^ LENGTH(64)" by (rule unsigned_less)
  then have "j < 2 ^ LENGTH(64)" using j by simp
  then have uj: "unat (of_nat j :: size_t) = j" by (simp add: unat_of_nat)
  have "unat (start (bs ! k) + off) + unat (of_nat j :: size_t) < 2 ^ LENGTH(64)"
    using so s o e uj by simp
  then have "unat (start (bs ! k) + off + of_nat j) = unat (start (bs ! k) + off) + unat (of_nat j :: size_t)"
    by (rule unat_add_lem [THEN iffD1])
  then show "unat (start (bs ! k) + off + of_nat j) = unat (addr (bs ! k)) + 56 + unat off + j"
    using so s uj by simp
qed

lemma range_in_payload:
  assumes c: "chain 0 bs" and k: "k < length bs"
    and fit: "requested_size (bs ! k) \<le> size_blk (bs ! k)"
    and rng: "unat (off :: size_t) + unat (n :: size_t) \<le> unat (requested_size (bs ! k))"
    and j: "j < unat n"
  shows "in_payload (bs ! k) (start (bs ! k) + off + of_nat j) \<and>
         in_array (start (bs ! k) + off + of_nat j) \<and>
         \<not> on_header bs (start (bs ! k) + off + of_nat j)"
proof -
  define a where "a = start (bs ! k) + off + of_nat j"
  note r = range_addr [OF c k fit rng j, folded a_def]
  have le: "start (bs ! k) \<le> a" using r by (simp add: word_le_nat_alt)
  then have "unat (a - start (bs ! k)) = unat a - unat (start (bs ! k))" by (rule unat_sub)
  then have p: "in_payload (bs ! k) a" using le r by (simp add: in_payload_def word_less_nat_alt)
  have ar: "in_array a" using r by (simp add: in_array_def word_less_nat_alt)
  have "\<not> (addr b \<le> a \<and> a - addr b < sizeof_BlockHeader)" if b: "b \<in> set bs" for b
  proof
    assume h: "addr b \<le> a \<and> a - addr b < sizeof_BlockHeader"
    obtain m where m: "m < length bs" "b = bs ! m" using b by (auto simp: in_set_conv_nth)
    have "unat (a - addr b) = unat a - unat (addr b)" using h by (intro unat_sub) simp
    then have "unat (addr (bs ! m)) \<le> unat a \<and> unat a < unat (addr (bs ! m)) + 56"
      using h m by (auto simp: word_le_nat_alt word_less_nat_alt)
    moreover have "unat (addr (bs ! k)) + 56 \<le> unat a"
      "unat a < unat (addr (bs ! k)) + 56 + unat (size_blk (bs ! k))" using r by simp_all
    ultimately show False using payload_off_headers [OF c k m(1), of "unat a"] by blast
  qed
  then have "\<not> on_header bs a" by (auto simp: on_header_def)
  then show ?thesis using p ar unfolding a_def by simp
qed

text \<open>
  The state after \<open>2^31\<close> pairs of \<open>malloc 16\<close> and \<open>free\<close> and one more \<open>malloc 16\<close>: block 0
  is allocated with 16 requested bytes, poisoned with 0xCD, under the id \<open>-2147483648\<close>.
\<close>

lemma wrapped_block_head:
  "g_head wrapped_block_state =
      [\<lparr>addr = 0, id_blk = 2147483648, start = 56, size_blk = 16, requested_size = 16,
        free = False, cacheable = True, cache_hits = 0\<rparr>,
       \<lparr>addr = 72, id_blk = -1, start = 128, size_blk = 65408, requested_size = 0,
        free = True, cacheable = False, cache_hits = 0\<rparr>]"
  and wrapped_block_heap: "g_heap wrapped_block_state 56 = 0xCD"
proof -
  have nz: "(16 :: size_t) \<noteq> 0" by simp
  have ff: "find_fit (g_head (allocator_init wrapped_state)) (align_size 16) First = Some 0"
    by (simp add: wrapped_state_facts align16 find_fit_def whole_heap_free_def)
  have blk: "malloc_block wrapped_state 16 0 =
      \<lparr>addr = 0, id_blk = 2147483648, start = 56, size_blk = 16, requested_size = 16,
       free = False, cacheable = True, cache_hits = 0\<rparr>"
    by (simp add: malloc_block_def wrapped_state_facts align16 whole_heap_free_def
        split_block_if_needed_def Let_def sizeof_BlockHeader_def)
  note m = malloc_fit [OF nz ff, folded wrapped_block_state_def]
  show "g_head wrapped_block_state =
      [\<lparr>addr = 0, id_blk = 2147483648, start = 56, size_blk = 16, requested_size = 16,
        free = False, cacheable = True, cache_hits = 0\<rparr>,
       \<lparr>addr = 72, id_blk = -1, start = 128, size_blk = 65408, requested_size = 0,
        free = True, cacheable = False, cache_hits = 0\<rparr>]"
    unfolding m(1) blk
    by (simp add: wrapped_state_facts align16 whole_heap_free_def split_block_if_needed_def Let_def
        sizeof_BlockHeader_def)
  show "g_heap wrapped_block_state 56 = 0xCD"
    unfolding m(4) blk by (simp add: memset_def PATTERN_UNINITIALIZED_def)
qed

lemma wrapped_block_init: "allocator_init wrapped_block_state = wrapped_block_state"
  by (rule allocator_init_id) (simp add: wrapped_block_head)

lemma wrapped_id_negative: "(2147483648 :: c_int) <s 0"
  by (simp add: word_sless_alt)

text \<open>
  Claim C2, as stated, fails.  In that state block 0 is an allocated block, the layout is
  intact, and the range of 2 bytes at offset 0 lies inside its 16 requested bytes.  The id
  of the block is negative, \<open>write\<close> refuses it at its first test, returns false and stores
  nothing: the first byte of the block is still 0xCD.
\<close>

theorem write_refuses_wrapped_id:
  "chain 0 (g_head wrapped_block_state) \<and>
   \<not> free (g_head wrapped_block_state ! 0) \<and>
   sint (id_blk (g_head wrapped_block_state ! 0)) = - 2147483648 \<and>
   requested_size (g_head wrapped_block_state ! 0) = 16 \<and>
   size_blk (g_head wrapped_block_state ! 0) = 16 \<and>
   (2 :: size_t) \<noteq> 0 \<and>
   unat (0 :: size_t) + unat (2 :: size_t) \<le> unat (16 :: size_t) \<and>
   unat (2 :: size_t) \<le> length [104, 105 :: uint8_t] \<and>
   \<not> fst (allocator_write (id_blk (g_head wrapped_block_state ! 0)) 0 (Some [104, 105]) 2
            wrapped_block_state) \<and>
   g_heap (snd (allocator_write (id_blk (g_head wrapped_block_state ! 0)) 0 (Some [104, 105]) 2
            wrapped_block_state)) 56 = 0xCD"
proof -
  have c: "chain 0 (g_head wrapped_block_state)"
    by (simp add: wrapped_block_head) (simp add: sizeof_BlockHeader_def)
  have i: "id_blk (g_head wrapped_block_state ! 0) = 2147483648" by (simp add: wrapped_block_head)
  have rej: "(2147483648 :: c_int) <s 0 \<or> Some [104, 105 :: uint8_t] = None \<or> (2 :: size_t) = 0 \<or>
     find_block_by_id (g_head (allocator_init wrapped_block_state)) 2147483648 = None \<or>
     (\<exists>k. find_block_by_id (g_head (allocator_init wrapped_block_state)) 2147483648 = Some k \<and>
        requested_size (g_head (allocator_init wrapped_block_state) ! k) < 0 + 2)"
    using wrapped_id_negative by simp
  note w = allocator_write_rejects [OF rej]
  show ?thesis using c w wrapped_block_heap unfolding i by (simp add: wrapped_block_head)
qed

text \<open>
  Claim C2, amended: for every allocated block that the lookup finds under its id, where
  the id is not negative, the block list has its layout and the requested bytes of the
  block lie in its payload, and for every \<open>n > 0\<close> with \<open>offset + n \<le> requested_size\<close> and a
  valid source buffer, \<open>write(id, offset, src, n)\<close> returns true and copies all \<open>n\<close> source
  bytes into the block, even when the destination range previously contained the poison
  bytes 0xCD or 0xDD.

  The layout is \<open>chain\<close>: headers and payloads one behind the other, filling the array.  It
  and the bound on the requested bytes hold in every state of a run within its bounds.
  \<open>offset + n\<close> is exact, the buffer has at least \<open>n\<close> bytes.  Afterwards byte \<open>j\<close> of the
  range is \<open>src[j]\<close>, for all \<open>j < n\<close>; each of these bytes lies in the payload of the block,
  inside the array and on no block header; the call changes no other byte and no header.
  Nothing is assumed about the bytes that were in the range before.
\<close>

theorem allocator_write_spec:
  assumes lay: "chain 0 (g_head s)"
    and fb: "find_block_by_id (g_head s) i = Some k"
    and i0: "\<not> i <s 0"
    and fit: "requested_size (g_head s ! k) \<le> size_blk (g_head s ! k)"
    and n0: "n \<noteq> 0"
    and rng: "unat off + unat n \<le> unat (requested_size (g_head s ! k))"
    and buf: "unat n \<le> length src"
  shows "fst (allocator_write i off (Some src) n s) \<and>
         (\<forall>j < unat n.
            g_heap (snd (allocator_write i off (Some src) n s))
              (start (g_head s ! k) + off + of_nat j) = src ! j \<and>
            in_payload (g_head s ! k) (start (g_head s ! k) + off + of_nat j) \<and>
            in_array (start (g_head s ! k) + off + of_nat j) \<and>
            \<not> on_header (g_head s) (start (g_head s ! k) + off + of_nat j)) \<and>
         (\<forall>a. (\<forall>j < unat n. a \<noteq> start (g_head s ! k) + off + of_nat j) \<longrightarrow>
              g_heap (snd (allocator_write i off (Some src) n s)) a = g_heap s a) \<and>
         g_head (snd (allocator_write i off (Some src) n s)) = g_head s"
proof -
  have k: "k < length (g_head s)" using find_block_by_id_Some [OF fb] by simp
  note w = allocator_write_found [OF fb i0 n0 rng buf]
  have "\<forall>j < unat n. in_payload (g_head s ! k) (start (g_head s ! k) + off + of_nat j) \<and>
            in_array (start (g_head s ! k) + off + of_nat j) \<and>
            \<not> on_header (g_head s) (start (g_head s ! k) + off + of_nat j)"
    using range_in_payload [OF lay k fit rng] by blast
  then show ?thesis using w by simp
qed

text \<open>The state after the first \<open>malloc 16\<close> meets the hypotheses.\<close>

lemma ex_k: "0 < length (g_head example_state)" "\<not> free (g_head example_state ! 0)"
  "id_blk (g_head example_state ! 0) = 0" "start (g_head example_state ! 0) = 56"
  "requested_size (g_head example_state ! 0) = 16" "size_blk (g_head example_state ! 0) = 16"
  by (simp_all add: ex_head)

lemma ex_found: "find_block_by_id (g_head example_state) 0 = Some 0"
  by (simp add: ex_head)

lemma ex_chain: "chain 0 (g_head example_state)"
  by (simp add: ex_head) (simp add: sizeof_BlockHeader_def)

lemma zero_not_negative: "\<not> (0 :: c_int) <s 0"
  by simp

lemma two: "unat (2 :: size_t) = 2" "unat (3 :: size_t) = 3" "unat (16 :: size_t) = 16"
  by simp_all

theorem allocator_write_spec_witness:
  "chain 0 (g_head example_state) \<and>
   find_block_by_id (g_head example_state) 0 = Some 0 \<and> \<not> (0 :: c_int) <s 0 \<and>
   requested_size (g_head example_state ! 0) \<le> size_blk (g_head example_state ! 0) \<and>
   (2 :: size_t) \<noteq> 0 \<and>
   unat (0 :: size_t) + unat (2 :: size_t) \<le> unat (requested_size (g_head example_state ! 0)) \<and>
   unat (2 :: size_t) \<le> length [104, 105 :: uint8_t] \<and>
   g_heap example_state 56 = 0xCD \<and> g_heap example_state 57 = 0xCD \<and>
   fst (allocator_write 0 0 (Some [104, 105]) 2 example_state) \<and>
   g_heap (snd (allocator_write 0 0 (Some [104, 105]) 2 example_state)) 56 = 104 \<and>
   g_heap (snd (allocator_write 0 0 (Some [104, 105]) 2 example_state)) 57 = 105 \<and>
   in_payload (g_head example_state ! 0) 57 \<and> in_array 57 \<and> \<not> on_header (g_head example_state) 57"
proof -
  have fit: "requested_size (g_head example_state ! 0) \<le> size_blk (g_head example_state ! 0)"
    by (simp add: ex_k)
  have n0: "(2 :: size_t) \<noteq> 0" by simp
  have rng: "unat (0 :: size_t) + unat (2 :: size_t) \<le> unat (requested_size (g_head example_state ! 0))"
    by (simp add: ex_k)
  have buf: "unat (2 :: size_t) \<le> length [104, 105 :: uint8_t]" by simp
  note a = allocator_write_spec [OF ex_chain ex_found zero_not_negative fit n0 rng buf,
      unfolded ex_k(4) two]
  have p: "g_heap example_state 56 = 0xCD" "g_heap example_state 57 = 0xCD"
    by (simp_all add: ex_heap memset_def)
  have b0: "g_heap (snd (allocator_write 0 0 (Some [104, 105]) 2 example_state)) 56 = 104"
    using a [THEN conjunct2, THEN conjunct1, rule_format, of 0] by simp
  have b1: "g_heap (snd (allocator_write 0 0 (Some [104, 105]) 2 example_state)) 57 = 105 \<and>
    in_payload (g_head example_state ! 0) 57 \<and> in_array 57 \<and> \<not> on_header (g_head example_state) 57"
    using a [THEN conjunct2, THEN conjunct1, rule_format, of 1] by simp
  show ?thesis
    using ex_chain ex_found fit n0 rng buf p a [THEN conjunct1] b0 b1 by simp
qed

text \<open>
  Claim C4, as stated, fails.  In the state above, block 0 is an allocated block and the
  range of 1 byte at offset 0 lies inside its 16 requested bytes; the source byte is 0xCD.
  \<open>read\<close> refuses the negative id at its first test and stores nothing: the destination
  buffer still holds the byte 0, not the source byte.
\<close>

theorem read_refuses_wrapped_id:
  "chain 0 (g_head wrapped_block_state) \<and>
   \<not> free (g_head wrapped_block_state ! 0) \<and>
   sint (id_blk (g_head wrapped_block_state ! 0)) = - 2147483648 \<and>
   requested_size (g_head wrapped_block_state ! 0) = 16 \<and>
   size_blk (g_head wrapped_block_state ! 0) = 16 \<and>
   (1 :: size_t) \<noteq> 0 \<and>
   unat (0 :: size_t) + unat (1 :: size_t) \<le> unat (16 :: size_t) \<and>
   unat (1 :: size_t) \<le> length [0 :: uint8_t] \<and>
   g_heap wrapped_block_state (start (g_head wrapped_block_state ! 0) + 0 + of_nat 0) = 0xCD \<and>
   fst (snd (allocator_read (id_blk (g_head wrapped_block_state ! 0)) 0 (Some [0]) 1
               wrapped_block_state)) = Some [0]"
proof -
  have c: "chain 0 (g_head wrapped_block_state)"
    by (simp add: wrapped_block_head) (simp add: sizeof_BlockHeader_def)
  have i: "id_blk (g_head wrapped_block_state ! 0) = 2147483648" by (simp add: wrapped_block_head)
  have rej: "(2147483648 :: c_int) <s 0 \<or> Some [0 :: uint8_t] = None \<or> (1 :: size_t) = 0 \<or>
     find_block_by_id (g_head (allocator_init wrapped_block_state)) 2147483648 = None \<or>
     (\<exists>k. find_block_by_id (g_head (allocator_init wrapped_block_state)) 2147483648 = Some k \<and>
        requested_size (g_head (allocator_init wrapped_block_state) ! k) < 0 + 1)"
    using wrapped_id_negative by simp
  note w = allocator_read_rejects [OF rej]
  show ?thesis using c w wrapped_block_heap unfolding i by (simp add: wrapped_block_head)
qed

text \<open>
  Claim C4, amended: for every allocated block that the lookup finds under its id, where
  the id is not negative, the block list has its layout and the requested bytes of the
  block lie in its payload, and for every valid range (\<open>n > 0\<close>,
  \<open>offset + n \<le> requested_size\<close>, valid \<open>dst\<close>), \<open>read(id, offset, dst, n)\<close> copies all \<open>n\<close>
  source bytes into \<open>dst\<close> and returns true if and only if none of the \<open>n\<close> source bytes
  equals 0xCD or 0xDD.

  \<open>offset + n\<close> is exact, the buffer has at least \<open>n\<close> bytes.  Each source byte lies in the
  payload of the block, inside the array and on no block header; the heap bytes and the
  headers are not changed.
\<close>

theorem allocator_read_spec:
  assumes lay: "chain 0 (g_head s)"
    and fb: "find_block_by_id (g_head s) i = Some k"
    and i0: "\<not> i <s 0"
    and fit: "requested_size (g_head s ! k) \<le> size_blk (g_head s ! k)"
    and n0: "n \<noteq> 0"
    and rng: "unat off + unat n \<le> unat (requested_size (g_head s ! k))"
    and buf: "unat n \<le> length d"
  shows "\<exists>ok d' s'. allocator_read i off (Some d) n s = (ok, Some d', s') \<and>
           length d' = length d \<and>
           (\<forall>j < unat n.
              d' ! j = g_heap s (start (g_head s ! k) + off + of_nat j) \<and>
              in_payload (g_head s ! k) (start (g_head s ! k) + off + of_nat j) \<and>
              in_array (start (g_head s ! k) + off + of_nat j) \<and>
              \<not> on_header (g_head s) (start (g_head s ! k) + off + of_nat j)) \<and>
           (ok \<longleftrightarrow> (\<forall>j < unat n. g_heap s (start (g_head s ! k) + off + of_nat j) \<noteq> 0xCD \<and>
                                  g_heap s (start (g_head s ! k) + off + of_nat j) \<noteq> 0xDD)) \<and>
           g_heap s' = g_heap s \<and> g_head s' = g_head s"
proof -
  have k: "k < length (g_head s)" using find_block_by_id_Some [OF fb] by simp
  obtain ok d' s' where r: "allocator_read i off (Some d) n s = (ok, Some d', s')"
    and l: "length d' = length d"
    and b: "\<forall>j < unat n. d' ! j = g_heap s (start (g_head s ! k) + off + of_nat j)"
    and o: "ok \<longleftrightarrow> (\<forall>j < unat n. g_heap s (start (g_head s ! k) + off + of_nat j) \<noteq> 0xCD \<and>
                                  g_heap s (start (g_head s ! k) + off + of_nat j) \<noteq> 0xDD)"
    and h: "g_heap s' = g_heap s"
    using allocator_read_found [OF fb i0 n0 rng buf] by blast
  have ne: "g_head s \<noteq> []" using fb by auto
  have "g_head (snd (snd (allocator_read i off (Some d) n s))) = g_head (allocator_init s)"
    using read_head [of i off "Some d" n s] by simp
  then have hd: "g_head s' = g_head s" using r by (simp add: allocator_init_id [OF ne])
  have p: "\<forall>j < unat n. in_payload (g_head s ! k) (start (g_head s ! k) + off + of_nat j) \<and>
            in_array (start (g_head s ! k) + off + of_nat j) \<and>
            \<not> on_header (g_head s) (start (g_head s ! k) + off + of_nat j)"
    using range_in_payload [OF lay k fit rng] by blast
  show ?thesis
    apply (rule exI [of _ ok], rule exI [of _ d'], rule exI [of _ s'])
    using r l b o h hd p by simp
qed

lemma all_less_2: "(\<forall>j < (2::nat). P j) \<longleftrightarrow> P 0 \<and> P 1"
  by (auto simp: less_2_cases_iff)

lemma reachable_example_state_written: "reachable example_state_written"
  unfolding example_state_written_def by (rule r_write [OF reachable_example_state]) simp_all

lemma written_facts:
  "g_head example_state_written = g_head example_state"
  "g_heap example_state_written 56 = 104"
  "g_heap example_state_written 57 = 105"
  "g_heap example_state_written 58 = 0xCD"
proof -
  have n0: "(2 :: size_t) \<noteq> 0" by simp
  have rng: "unat (0 :: size_t) + unat (2 :: size_t) \<le> unat (requested_size (g_head example_state ! 0))"
    by (simp add: ex_k)
  have buf: "unat (2 :: size_t) \<le> length [104, 105 :: uint8_t]" by simp
  note a = allocator_write_found [OF ex_found zero_not_negative n0 rng buf,
      folded example_state_written_def, unfolded ex_k(4) two]
  show "g_head example_state_written = g_head example_state" using a by simp
  show "g_heap example_state_written 56 = 104"
    using a [THEN conjunct2, THEN conjunct1, rule_format, of 0] by simp
  show "g_heap example_state_written 57 = 105"
    using a [THEN conjunct2, THEN conjunct1, rule_format, of 1] by simp
  have "\<forall>j < 2. (58 :: size_t) \<noteq> 56 + 0 + of_nat j"
    unfolding all_less_2 by simp
  then have "g_heap example_state_written 58 = g_heap example_state 58"
    using a [THEN conjunct2, THEN conjunct2, THEN conjunct1, rule_format, of 58] by simp
  then show "g_heap example_state_written 58 = 0xCD"
    by (simp add: ex_heap memset_def)
qed

theorem allocator_read_spec_witness:
  "chain 0 (g_head example_state_written) \<and>
   find_block_by_id (g_head example_state_written) 0 = Some 0 \<and> \<not> (0 :: c_int) <s 0 \<and>
   requested_size (g_head example_state_written ! 0) \<le> size_blk (g_head example_state_written ! 0) \<and>
   (3 :: size_t) \<noteq> 0 \<and>
   unat (0 :: size_t) + unat (3 :: size_t) \<le> unat (requested_size (g_head example_state_written ! 0)) \<and>
   unat (3 :: size_t) \<le> length [0, 0, 0 :: uint8_t] \<and>
   (\<exists>d' s'. allocator_read 0 0 (Some [0, 0, 0]) 3 example_state_written = (False, Some d', s') \<and>
      d' ! 0 = 104 \<and> d' ! 1 = 105 \<and> d' ! 2 = 0xCD) \<and>
   (\<exists>d' s'. allocator_read 0 0 (Some [0, 0]) 2 example_state_written = (True, Some d', s') \<and>
      d' ! 0 = 104 \<and> d' ! 1 = 105) \<and>
   in_payload (g_head example_state_written ! 0) 58 \<and> in_array 58 \<and>
   \<not> on_header (g_head example_state_written) 58"
proof -
  have c: "chain 0 (g_head example_state_written)" using ex_chain by (simp add: written_facts)
  have fb: "find_block_by_id (g_head example_state_written) 0 = Some 0"
    using ex_found by (simp add: written_facts)
  have fit: "requested_size (g_head example_state_written ! 0) \<le> size_blk (g_head example_state_written ! 0)"
    by (simp add: written_facts ex_k)
  have f: "start (g_head example_state_written ! 0) = 56"
    by (simp add: written_facts ex_k)
  have n3: "(3 :: size_t) \<noteq> 0" and n2: "(2 :: size_t) \<noteq> 0" by simp_all
  have rng3: "unat (0 :: size_t) + unat (3 :: size_t) \<le> unat (requested_size (g_head example_state_written ! 0))"
    and rng2: "unat (0 :: size_t) + unat (2 :: size_t) \<le> unat (requested_size (g_head example_state_written ! 0))"
    by (simp_all add: written_facts ex_k)
  have buf3: "unat (3 :: size_t) \<le> length [0, 0, 0 :: uint8_t]"
    and buf2: "unat (2 :: size_t) \<le> length [0, 0 :: uint8_t]" by simp_all
  note a3 = allocator_read_spec [OF c fb zero_not_negative fit n3 rng3 buf3, unfolded f two]
  note a2 = allocator_read_spec [OF c fb zero_not_negative fit n2 rng2 buf2, unfolded f two]
  obtain ok3 d3 s3 where
    r3: "allocator_read 0 0 (Some [0, 0, 0]) 3 example_state_written = (ok3, Some d3, s3)"
    and b3: "\<forall>j < 3. d3 ! j = g_heap example_state_written (56 + 0 + of_nat j) \<and>
              in_payload (g_head example_state_written ! 0) (56 + 0 + of_nat j) \<and>
              in_array (56 + 0 + of_nat j) \<and>
              \<not> on_header (g_head example_state_written) (56 + 0 + of_nat j)"
    and o3: "ok3 \<longleftrightarrow> (\<forall>j < 3. g_heap example_state_written (56 + 0 + of_nat j) \<noteq> 0xCD \<and>
                                 g_heap example_state_written (56 + 0 + of_nat j) \<noteq> 0xDD)"
    using a3 by blast
  obtain ok2 d2 s2 where
    r2: "allocator_read 0 0 (Some [0, 0]) 2 example_state_written = (ok2, Some d2, s2)"
    and b2: "\<forall>j < 2. d2 ! j = g_heap example_state_written (56 + 0 + of_nat j) \<and>
              in_payload (g_head example_state_written ! 0) (56 + 0 + of_nat j) \<and>
              in_array (56 + 0 + of_nat j) \<and>
              \<not> on_header (g_head example_state_written) (56 + 0 + of_nat j)"
    and o2: "ok2 \<longleftrightarrow> (\<forall>j < 2. g_heap example_state_written (56 + 0 + of_nat j) \<noteq> 0xCD \<and>
                                 g_heap example_state_written (56 + 0 + of_nat j) \<noteq> 0xDD)"
    using a2 by blast
  have "\<not> ok3" using o3 [THEN iffD1, rule_format, of 2] by (auto simp: written_facts)
  moreover have "d3 ! 0 = 104" "d3 ! 1 = 105" "d3 ! 2 = 0xCD"
    using b3 [rule_format, of 0] b3 [rule_format, of 1] b3 [rule_format, of 2]
    by (simp_all add: written_facts)
  moreover have "in_payload (g_head example_state_written ! 0) 58 \<and> in_array 58 \<and>
     \<not> on_header (g_head example_state_written) 58"
    using b3 [rule_format, of 2] by simp
  moreover have "ok2" unfolding o2 all_less_2 by (simp add: written_facts)
  moreover have "d2 ! 0 = 104" "d2 ! 1 = 105"
    using b2 [rule_format, of 0] b2 [rule_format, of 1] by (simp_all add: written_facts)
  ultimately show ?thesis
    using r3 r2 c fb fit n3 rng3 buf3 by simp
qed

section \<open>The allocated blocks of the runs\<close>

text \<open>
  Where \<open>align_size\<close> does not wrap, the aligned size is at least the size.
\<close>

lemma and_not_low: "y AND NOT m = y - (y AND m)" for y m :: size_t
proof -
  have "NOT y AND (y AND m) = 0" by (auto simp: bit_eq_iff bit_simps)
  then have "y - (y AND m) = y AND NOT (y AND m)" by (rule disjunctive_diff_eq_and_not)
  also have "\<dots> = y AND NOT m" by (auto simp: bit_eq_iff bit_simps)
  finally show ?thesis by simp
qed

lemma align_size_ge:
  assumes "unat sz + 15 < 2 ^ 64"
  shows "sz \<le> align_size sz"
proof -
  define y where "y = sz + 15"
  have "unat sz + unat (15 :: size_t) < 2 ^ LENGTH(64)" using assms by simp
  then have uy: "unat y = unat sz + 15"
    unfolding y_def using unat_add_lem [THEN iffD1, of sz 15] by simp
  have le: "y AND 15 \<le> 15" by (rule word_and_le1)
  then have l15: "unat (y AND 15) \<le> 15" by (simp add: word_le_nat_alt)
  have "y AND 15 \<le> y" by (rule word_and_le2)
  then have "unat (y - (y AND 15)) = unat y - unat (y AND 15)" by (simp add: unat_sub)
  then have "unat sz \<le> unat (y - (y AND 15))" using uy l15 by simp
  moreover have "align_size sz = y - (y AND 15)"
  proof -
    have "align_size sz = y AND NOT 15"
      by (simp add: align_size_def max_align_def y_def add.commute)
    also have "\<dots> = y - (y AND 15)" by (rule and_not_low)
    finally show ?thesis .
  qed
  ultimately show ?thesis by (simp add: word_le_nat_alt)
qed

lemma memset_range:
  "j < unat n \<Longrightarrow> memset h p v n (p + of_nat j) = v" for n p :: size_t
proof -
  assume j: "j < unat n"
  have "unat n < 2 ^ LENGTH(64)" by (rule unsigned_less)
  then have "unat (of_nat j :: size_t) = j" using j by (simp add: unat_of_nat)
  then have "(of_nat j :: size_t) < n" using j by (simp add: word_less_nat_alt)
  then show ?thesis by (simp add: memset_def)
qed

lemma split_nth_size:
  "k < length bs \<Longrightarrow> sz \<le> size_blk (bs ! k) \<Longrightarrow>
   sz \<le> size_blk (split_block_if_needed bs k sz ! k)"
  by (simp add: split_block_if_needed_def Let_def nth_append)

text \<open>
  Where \<open>align_size\<close> does not wrap, a successful allocation poisons the whole payload,
  and the payload covers the requested bytes.
\<close>

lemma malloc_poisons_payload:
  assumes sz: "sz \<noteq> 0" and small: "unat sz + 15 < 2 ^ 64"
    and ff: "find_fit (g_head (allocator_init s)) (align_size sz) strategy = Some k"
  shows "requested_size (malloc_block s sz k) = sz \<and>
         sz \<le> size_blk (malloc_block s sz k) \<and>
         (\<forall>j < unat (size_blk (malloc_block s sz k)).
            g_heap (snd (allocator_malloc sz strategy s)) (start (malloc_block s sz k) + of_nat j) = 0xCD)"
proof -
  have fk: "fits (g_head (allocator_init s)) (align_size sz) k" by (rule fit_facts [OF ff])
  then have k: "k < length (g_head (allocator_init s))"
    and le: "align_size sz \<le> size_blk (g_head (allocator_init s) ! k)"
    by (simp_all add: fits_def)
  have "align_size sz \<le> size_blk (split_block_if_needed (g_head (allocator_init s)) k (align_size sz) ! k)"
    by (rule split_nth_size [OF k le])
  then have "sz \<le> size_blk (malloc_block s sz k)"
    using align_size_ge [OF small] by (simp add: malloc_block_def Let_def)
  moreover have "requested_size (malloc_block s sz k) = sz"
    by (simp add: malloc_block_def Let_def)
  moreover have "\<forall>j < unat (size_blk (malloc_block s sz k)).
      g_heap (snd (allocator_malloc sz strategy s)) (start (malloc_block s sz k) + of_nat j) = 0xCD"
    unfolding malloc_fit(4) [OF sz ff]
    by (simp add: memset_range PATTERN_UNINITIALIZED_def)
  ultimately show ?thesis by simp
qed

text \<open>
  In every state reached by a run within its bounds, the requested bytes of every allocated
  block lie in its payload.
\<close>

lemma requested_fits_update:
  "requested_fits bs \<Longrightarrow> (\<not> free b' \<longrightarrow> requested_size b' \<le> size_blk b') \<Longrightarrow>
   requested_fits (bs[k := b'])"
  unfolding requested_fits_def by (blast dest: in_set_update_cases)

lemma requested_fits_nth:
  "requested_fits bs \<Longrightarrow> k < length bs \<Longrightarrow> \<not> free (bs ! k) \<Longrightarrow>
   requested_size (bs ! k) \<le> size_blk (bs ! k)"
  unfolding requested_fits_def by simp

lemma requested_fits_Cons:
  "requested_fits (b # bs) \<longleftrightarrow> (\<not> free b \<longrightarrow> requested_size b \<le> size_blk b) \<and> requested_fits bs"
  by (simp add: requested_fits_def)

lemma requested_fits_append:
  "requested_fits (xs @ ys) \<longleftrightarrow> requested_fits xs \<and> requested_fits ys"
  unfolding requested_fits_def by (simp add: ball_Un)

lemma requested_fits_take: "requested_fits bs \<Longrightarrow> requested_fits (take k bs)"
  unfolding requested_fits_def by (blast dest: in_set_takeD)

lemma requested_fits_drop: "requested_fits bs \<Longrightarrow> requested_fits (drop k bs)"
  unfolding requested_fits_def by (blast dest: in_set_dropD)

lemma requested_fits_split:
  "requested_fits bs \<Longrightarrow> k < length bs \<Longrightarrow> free (bs ! k) \<Longrightarrow>
   requested_fits (split_block_if_needed bs k sz)"
  by (simp add: split_block_if_needed_def Let_def requested_fits_append requested_fits_Cons
      requested_fits_take requested_fits_drop requested_fits_def [of "[]"])

lemma requested_fits_coalesce:
  "requested_fits bs \<Longrightarrow> requested_fits (coalesce_free_blocks bs)"
  by (induction bs rule: coalesce_free_blocks.induct) (simp_all add: requested_fits_Cons requested_fits_def [of "[]"])

lemma requested_fits_init: "requested_fits (g_head s) \<Longrightarrow> requested_fits (g_head (allocator_init s))"
  by (simp add: allocator_init_def requested_fits_def)

lemma requested_fits_malloc:
  assumes ok: "requested_fits (g_head s)" and small: "unat sz + 15 < 2 ^ 64"
  shows "requested_fits (g_head (snd (allocator_malloc sz strategy s)))"
proof (cases "sz = 0 \<or> find_fit (g_head (allocator_init s)) (align_size sz) strategy = None")
  case True
  then show ?thesis using malloc_no_fit [OF True] requested_fits_init [OF ok] by simp
next
  case False
  then obtain k where sz: "sz \<noteq> 0"
    and ff: "find_fit (g_head (allocator_init s)) (align_size sz) strategy = Some k" by auto
  have k: "k < length (g_head (allocator_init s))" and fr: "free (g_head (allocator_init s) ! k)"
    using fit_facts [OF ff] by (simp_all add: fits_def)
  have le: "requested_size (malloc_block s sz k) \<le> size_blk (malloc_block s sz k)"
    using malloc_poisons_payload [OF sz small ff] by simp
  show ?thesis
    unfolding malloc_fit(1) [OF sz ff]
    by (rule requested_fits_update [OF requested_fits_split [OF requested_fits_init [OF ok] k fr]])
       (simp add: le)
qed

lemma requested_fits_free:
  assumes ok: "requested_fits (g_head s)"
  shows "requested_fits (g_head (allocator_free i s))"
proof (cases "i <s 0 \<or> find_block_by_id (g_head (allocator_init s)) i = None")
  case True
  then have "allocator_free i s = allocator_init s" by (auto simp: allocator_free_def Let_def)
  then show ?thesis using requested_fits_init [OF ok] by simp
next
  case False
  then obtain k where fb: "find_block_by_id (g_head (allocator_init s)) i = Some k"
    and i0: "\<not> i <s 0" by auto
  have e: "allocator_free i s = allocator_free i (allocator_init s)"
    by (simp add: allocator_free_def allocator_init_id [OF init_head_ne])
  show ?thesis
    unfolding e free_head [OF fb i0]
    by (intro requested_fits_coalesce requested_fits_update requested_fits_init [OF ok]) simp
qed

lemma requested_fits_set_cacheable:
  assumes ok: "requested_fits (g_head s)"
  shows "requested_fits (g_head (allocator_set_block_cacheable i c s))"
proof (cases "i <s 0 \<or> find_block_by_id (g_head (allocator_init s)) i = None")
  case True
  then have "allocator_set_block_cacheable i c s = allocator_init s"
    by (auto simp: allocator_set_block_cacheable_def Let_def)
  then show ?thesis using requested_fits_init [OF ok] by simp
next
  case False
  then obtain k where fb: "find_block_by_id (g_head (allocator_init s)) i = Some k"
    and i0: "\<not> i <s 0" by auto
  have hd: "g_head (allocator_set_block_cacheable i c s) =
      (g_head (allocator_init s))[k := (g_head (allocator_init s) ! k)\<lparr>cacheable := c\<rparr>]"
    using fb i0 by (simp add: allocator_set_block_cacheable_def Let_def)
  show ?thesis
    unfolding hd
    by (rule requested_fits_update [OF requested_fits_init [OF ok]])
       (use find_block_by_id_Some [OF fb] requested_fits_nth [OF requested_fits_init [OF ok]] in simp)
qed

lemma requested_fits_access:
  assumes ok: "requested_fits (g_head s)"
  shows "requested_fits (g_head (allocator_access i w s))"
proof (cases "i <s 0 \<or> find_block_by_id (g_head (allocator_init s)) i = None")
  case True
  then have "allocator_access i w s = allocator_init s"
    by (auto simp: allocator_access_def Let_def)
  then show ?thesis using requested_fits_init [OF ok] by simp
next
  case False
  then obtain k where fb: "find_block_by_id (g_head (allocator_init s)) i = Some k"
    and i0: "\<not> i <s 0" by auto
  have "g_head (allocator_access i w s) = g_head (allocator_init s) \<or>
        g_head (allocator_access i w s) =
          (g_head (allocator_init s))[k := (g_head (allocator_init s) ! k)
             \<lparr>cache_hits := cache_hits (g_head (allocator_init s) ! k) + 1\<rparr>]"
    using fb i0 by (simp add: allocator_access_def Let_def)
  then show ?thesis
  proof
    assume "g_head (allocator_access i w s) = g_head (allocator_init s)"
    then show ?thesis using requested_fits_init [OF ok] by simp
  next
    assume hd: "g_head (allocator_access i w s) =
          (g_head (allocator_init s))[k := (g_head (allocator_init s) ! k)
             \<lparr>cache_hits := cache_hits (g_head (allocator_init s) ! k) + 1\<rparr>]"
    show ?thesis
      unfolding hd
      by (rule requested_fits_update [OF requested_fits_init [OF ok]])
         (use find_block_by_id_Some [OF fb] requested_fits_nth [OF requested_fits_init [OF ok]] in simp)
  qed
qed

lemma reachable_requested_fits: "reachable s \<Longrightarrow> requested_fits (g_head s)"
proof (induction rule: reachable.induct)
  case (r_init base)
  show ?case by (simp add: requested_fits_def initial_state_def)
next
  case (r_malloc s sz strategy)
  then show ?case by (simp add: requested_fits_malloc)
next
  case (r_free s i)
  then show ?case by (simp add: requested_fits_free)
next
  case (r_set_cacheable s i c)
  then show ?case by (simp add: requested_fits_set_cacheable)
next
  case (r_access s i w)
  then show ?case by (simp add: requested_fits_access)
next
  case (r_read s off sz dst i)
  then show ?case using read_head [of i off dst sz s] by (simp add: requested_fits_init)
next
  case (r_write s off sz src i)
  then show ?case using write_head [of i off src sz s] by (simp add: requested_fits_init)
next
  case (r_set_strategy s strategy)
  then show ?case by (simp add: allocator_set_strategy_def)
next
  case (r_dump s)
  then show ?case by (simp add: allocator_dump_def requested_fits_init)
next
  case (r_stats s)
  then show ?case by (simp add: allocator_stats_def requested_fits_init)
next
  case (r_cache_init_default s)
  then show ?case by simp
next
  case (r_cache_reset s)
  then show ?case by simp
next
  case (r_cache_add_level s sb bs as lat)
  then show ?case by simp
next
  case (r_cache_configure_level s idx sb bs as lat)
  then show ?case by simp
qed


text \<open>
  Every allocated block of a state reached by a run within its bounds meets the hypotheses
  of the statements about reads and writes: the layout holds, the lookup finds the block
  under its id, the id is not negative, and the requested bytes lie in the payload.
\<close>

lemma reachable_block_ok:
  assumes r: "reachable s" and k: "k < length (g_head s)" and used: "\<not> free (g_head s ! k)"
  shows "chain 0 (g_head s) \<and>
         find_block_by_id (g_head s) (id_blk (g_head s ! k)) = Some k \<and>
         \<not> id_blk (g_head s ! k) <s 0 \<and>
         requested_size (g_head s ! k) \<le> size_blk (g_head s ! k)"
proof -
  have ne: "g_head s \<noteq> []" using k by auto
  have "chain 0 (g_head s)" using reachable_heap_inv [OF r] ne by (simp add: heap_inv_def)
  moreover have "requested_size (g_head s ! k) \<le> size_blk (g_head s ! k)"
    by (rule requested_fits_nth [OF reachable_requested_fits [OF r] k used])
  ultimately show ?thesis using reachable_block_found [OF r k used] by simp
qed

section \<open>Inputs on which the program departs from its description\<close>

lemma align100: "align_size 100 = 112" and align200: "align_size 200 = 208"
  by (simp_all add: align_size_def max_align_def)

lemma one_block_head:
  "g_head (snd (allocator_malloc 100 First (initial_state 4096))) =
   [\<lparr>addr = 0, id_blk = 0, start = 56, size_blk = 112, requested_size = 100,
     free = False, cacheable = True, cache_hits = 0\<rparr>,
    \<lparr>addr = 168, id_blk = -1, start = 224, size_blk = 65312, requested_size = 0,
     free = True, cacheable = False, cache_hits = 0\<rparr>]"
  and one_block_next: "g_next_id (snd (allocator_malloc 100 First (initial_state 4096))) = 1"
proof -
  have nz: "(100 :: size_t) \<noteq> 0" by simp
  have ff: "find_fit (g_head (allocator_init (initial_state 4096))) (align_size 100) First = Some 0"
    by (simp add: init_head align100 find_fit_def)
  note m = malloc_fit(1,2) [OF nz ff]
  show "g_head (snd (allocator_malloc 100 First (initial_state 4096))) =
   [\<lparr>addr = 0, id_blk = 0, start = 56, size_blk = 112, requested_size = 100,
     free = False, cacheable = True, cache_hits = 0\<rparr>,
    \<lparr>addr = 168, id_blk = -1, start = 224, size_blk = 65312, requested_size = 0,
     free = True, cacheable = False, cache_hits = 0\<rparr>]"
    unfolding m(1)
    by (simp add: malloc_block_def init_head align100 split_block_if_needed_def Let_def
        sizeof_BlockHeader_def initial_next_id)
  show "g_next_id (snd (allocator_malloc 100 First (initial_state 4096))) = 1"
    unfolding m(2) by (simp add: initial_state_def)
qed

lemma two_blocks_head:
  "g_head example_two_blocks =
   [\<lparr>addr = 0, id_blk = 0, start = 56, size_blk = 112, requested_size = 100,
     free = False, cacheable = True, cache_hits = 0\<rparr>,
    \<lparr>addr = 168, id_blk = 1, start = 224, size_blk = 208, requested_size = 200,
     free = False, cacheable = True, cache_hits = 0\<rparr>,
    \<lparr>addr = 432, id_blk = -1, start = 488, size_blk = 65048, requested_size = 0,
     free = True, cacheable = False, cache_hits = 0\<rparr>]"
proof -
  define s1 where "s1 = snd (allocator_malloc 100 First (initial_state 4096))"
  have h1: "g_head s1 = [\<lparr>addr = 0, id_blk = 0, start = 56, size_blk = 112, requested_size = 100,
     free = False, cacheable = True, cache_hits = 0\<rparr>,
    \<lparr>addr = 168, id_blk = -1, start = 224, size_blk = 65312, requested_size = 0,
     free = True, cacheable = False, cache_hits = 0\<rparr>]"
    and n1: "g_next_id s1 = 1"
    unfolding s1_def by (rule one_block_head, rule one_block_next)
  have i1: "allocator_init s1 = s1" by (rule allocator_init_id) (simp add: h1)
  have nz: "(200 :: size_t) \<noteq> 0" by simp
  have ff: "find_fit (g_head (allocator_init s1)) (align_size 200) First = Some 1"
    by (simp add: i1 h1 align200 find_fit_def)
  note m = malloc_fit(1) [OF nz ff]
  show ?thesis
    unfolding example_two_blocks_def s1_def [symmetric] m
    by (simp add: malloc_block_def i1 h1 n1 align200 split_block_if_needed_def Let_def
        sizeof_BlockHeader_def)
qed

text \<open>
  In every state of a run within its bounds, every free block has id -1 and is not
  cacheable.
\<close>

lemma free_fields_update:
  "free_fields_ok bs \<Longrightarrow> (free b' \<longrightarrow> id_blk b' = -1 \<and> \<not> cacheable b') \<Longrightarrow>
   free_fields_ok (bs[k := b'])"
  unfolding free_fields_ok_def by (auto dest!: in_set_update_cases)

lemma free_fields_split:
  "free_fields_ok bs \<Longrightarrow> k < length bs \<Longrightarrow> free_fields_ok (split_block_if_needed bs k sz)"
  unfolding free_fields_ok_def split_block_if_needed_def Let_def
  by (auto dest: in_set_takeD in_set_dropD)

lemma free_fields_coalesce:
  "free_fields_ok bs \<Longrightarrow> free_fields_ok (coalesce_free_blocks bs)"
  by (induction bs rule: coalesce_free_blocks.induct) (auto simp: free_fields_ok_def)

lemma free_fields_init: "free_fields_ok (g_head s) \<Longrightarrow> free_fields_ok (g_head (allocator_init s))"
  by (simp add: allocator_init_def free_fields_ok_def)

lemma free_fields_malloc:
  assumes ok: "free_fields_ok (g_head s)"
  shows "free_fields_ok (g_head (snd (allocator_malloc sz strategy s)))"
proof (cases "sz = 0 \<or> find_fit (g_head (allocator_init s)) (align_size sz) strategy = None")
  case True
  then show ?thesis using malloc_no_fit [OF True] free_fields_init [OF ok] by simp
next
  case False
  then obtain k where sz: "sz \<noteq> 0"
    and ff: "find_fit (g_head (allocator_init s)) (align_size sz) strategy = Some k" by auto
  have k: "k < length (g_head (allocator_init s))" using fit_facts [OF ff] by (simp add: fits_def)
  show ?thesis
    unfolding malloc_fit(1) [OF sz ff]
    by (rule free_fields_update [OF free_fields_split [OF free_fields_init [OF ok] k]])
       (simp add: malloc_block_def Let_def)
qed

lemma free_fields_free:
  assumes ok: "free_fields_ok (g_head s)"
  shows "free_fields_ok (g_head (allocator_free i s))"
proof (cases "i <s 0 \<or> find_block_by_id (g_head (allocator_init s)) i = None")
  case True
  then have "allocator_free i s = allocator_init s" by (auto simp: allocator_free_def Let_def)
  then show ?thesis using free_fields_init [OF ok] by simp
next
  case False
  then obtain k where fb: "find_block_by_id (g_head (allocator_init s)) i = Some k"
    and i0: "\<not> i <s 0" by auto
  have e: "allocator_free i s = allocator_free i (allocator_init s)"
    by (simp add: allocator_free_def allocator_init_id [OF init_head_ne])
  show ?thesis
    unfolding e free_head [OF fb i0]
    by (intro free_fields_coalesce free_fields_update free_fields_init [OF ok]) simp
qed

lemma free_fields_set_cacheable:
  assumes ok: "free_fields_ok (g_head s)"
  shows "free_fields_ok (g_head (allocator_set_block_cacheable i c s))"
proof (cases "i <s 0 \<or> find_block_by_id (g_head (allocator_init s)) i = None")
  case True
  then have "allocator_set_block_cacheable i c s = allocator_init s"
    by (auto simp: allocator_set_block_cacheable_def Let_def)
  then show ?thesis using free_fields_init [OF ok] by simp
next
  case False
  then obtain k where fb: "find_block_by_id (g_head (allocator_init s)) i = Some k"
    and i0: "\<not> i <s 0" by auto
  have hd: "g_head (allocator_set_block_cacheable i c s) =
      (g_head (allocator_init s))[k := (g_head (allocator_init s) ! k)\<lparr>cacheable := c\<rparr>]"
    using fb i0 by (simp add: allocator_set_block_cacheable_def Let_def)
  show ?thesis
    unfolding hd
    by (rule free_fields_update [OF free_fields_init [OF ok]])
       (use find_block_by_id_Some [OF fb] in simp)
qed

lemma free_fields_access:
  assumes ok: "free_fields_ok (g_head s)"
  shows "free_fields_ok (g_head (allocator_access i w s))"
proof (cases "i <s 0 \<or> find_block_by_id (g_head (allocator_init s)) i = None")
  case True
  then have "allocator_access i w s = allocator_init s"
    by (auto simp: allocator_access_def Let_def)
  then show ?thesis using free_fields_init [OF ok] by simp
next
  case False
  then obtain k where fb: "find_block_by_id (g_head (allocator_init s)) i = Some k"
    and i0: "\<not> i <s 0" by auto
  have "g_head (allocator_access i w s) = g_head (allocator_init s) \<or>
        g_head (allocator_access i w s) =
          (g_head (allocator_init s))[k := (g_head (allocator_init s) ! k)
             \<lparr>cache_hits := cache_hits (g_head (allocator_init s) ! k) + 1\<rparr>]"
    using fb i0 by (simp add: allocator_access_def Let_def)
  then show ?thesis
  proof
    assume "g_head (allocator_access i w s) = g_head (allocator_init s)"
    then show ?thesis using free_fields_init [OF ok] by simp
  next
    assume hd: "g_head (allocator_access i w s) =
          (g_head (allocator_init s))[k := (g_head (allocator_init s) ! k)
             \<lparr>cache_hits := cache_hits (g_head (allocator_init s) ! k) + 1\<rparr>]"
    show ?thesis
      unfolding hd
      by (rule free_fields_update [OF free_fields_init [OF ok]])
         (use find_block_by_id_Some [OF fb] in simp)
  qed
qed

lemma reachable_free_fields: "reachable s \<Longrightarrow> free_fields_ok (g_head s)"
proof (induction rule: reachable.induct)
  case (r_init base)
  show ?case by (simp add: free_fields_ok_def initial_state_def)
next
  case (r_malloc s sz strategy)
  then show ?case by (simp add: free_fields_malloc)
next
  case (r_free s i)
  then show ?case by (simp add: free_fields_free)
next
  case (r_set_cacheable s i c)
  then show ?case by (simp add: free_fields_set_cacheable)
next
  case (r_access s i w)
  then show ?case by (simp add: free_fields_access)
next
  case (r_read s off sz dst i)
  then show ?case using read_head [of i off dst sz s] by (simp add: free_fields_init)
next
  case (r_write s off sz src i)
  then show ?case using write_head [of i off src sz s] by (simp add: free_fields_init)
next
  case (r_set_strategy s strategy)
  then show ?case by (simp add: allocator_set_strategy_def)
next
  case (r_dump s)
  then show ?case by (simp add: allocator_dump_def free_fields_init)
next
  case (r_stats s)
  then show ?case by (simp add: allocator_stats_def free_fields_init)
next
  case (r_cache_init_default s)
  then show ?case by simp
next
  case (r_cache_reset s)
  then show ?case by simp
next
  case (r_cache_add_level s sb bs as lat)
  then show ?case by simp
next
  case (r_cache_configure_level s idx sb bs as lat)
  then show ?case by simp
qed

text \<open>
  Claim C1.  The claim says that in every state reached by facade operations every free
  block has id -1, requested size 0 and cacheable false, in particular right after every
  \<open>free(id)\<close>.  \<open>allocator_free\<close> resets the id and the cacheable flag but not
  \<open>requested_size\<close>; only a merge in \<open>coalesce_free_blocks\<close> resets it.  After
  \<open>malloc 100\<close>, \<open>malloc 200\<close>, \<open>free 0\<close> the freed block has no free neighbour, and it is
  free with requested size 100.  The tuples are (free, id, size, requested size,
  cacheable).
\<close>

theorem free_keeps_requested_size:
  "reachable (allocator_free 0 example_two_blocks) \<and>
   map fields (g_head (allocator_free 0 example_two_blocks)) =
   [(True, -1, 112, 100, False), (False, 1, 208, 200, True), (True, -1, 65048, 0, False)]"
proof -
  have r1: "reachable (snd (allocator_malloc 100 First (initial_state 4096)))"
    by (rule r_malloc [OF r_init]) (simp_all add: initial_next_id)
  have "reachable example_two_blocks"
    unfolding example_two_blocks_def by (rule r_malloc [OF r1]) (simp_all add: one_block_next)
  then have r: "reachable (allocator_free 0 example_two_blocks)" by (rule r_free)
  have fb: "find_block_by_id (g_head example_two_blocks) 0 = Some 0"
    by (simp add: two_blocks_head)
  have "map fields (g_head (allocator_free 0 example_two_blocks)) =
    [(True, -1, 112, 100, False), (False, 1, 208, 200, True), (True, -1, 65048, 0, False)]"
    unfolding free_head [OF fb zero_not_negative]
    by (simp add: two_blocks_head fields_def)
  then show ?thesis using r by simp
qed

lemma upt_two: "[0..<unat (2 :: size_t)] = [0, 1]"
  by (simp add: upt_rec)

text \<open>
  Claim C3.  The claim says that read and write return false and change nothing whenever
  \<open>offset + n\<close>, computed exactly, exceeds the requested size.  The check
  \<open>offset + size > hdr->requested_size\<close> is computed in \<open>std::size_t\<close> and wraps: for the
  block of 16 requested bytes, \<open>offset = 2^64 - 1\<close> and \<open>n = 2\<close> the exact sum is
  \<open>2^64 + 1\<close>, the wrapped sum is 1, the write is accepted, returns true and overwrites the
  first byte of the block; the read with the same offset is accepted too and stores into
  the destination buffer.
\<close>

theorem write_wraps_bounds_check:
  "reachable example_state \<and>
   find_block_by_id (g_head example_state) 0 = Some 0 \<and>
   requested_size (g_head example_state ! 0) = 16 \<and>
   unat (18446744073709551615 :: size_t) + unat (2 :: size_t) = 18446744073709551617 \<and>
   fst (allocator_write 0 18446744073709551615 (Some [65, 66]) 2 example_state) \<and>
   g_heap example_state 56 = 0xCD \<and>
   g_heap (snd (allocator_write 0 18446744073709551615 (Some [65, 66]) 2 example_state)) 56 = 66 \<and>
   map_option (\<lambda>d. d ! 1)
     (fst (snd (allocator_read 0 18446744073709551615 (Some [0, 0]) 2 example_state))) = Some 0xCD"
proof -
  have "fst (allocator_write 0 18446744073709551615 (Some [65, 66]) 2 example_state)"
    by (simp add: allocator_write_def init_example ex_head Let_def case_prod_beta)
  moreover have "g_heap (snd (allocator_write 0 18446744073709551615 (Some [65, 66]) 2 example_state)) 56 = 66"
    by (simp add: allocator_write_def init_example ex_head Let_def case_prod_beta upt_rec
        write_step_def)
  moreover have "g_heap example_state 56 = 0xCD" by (simp add: ex_heap memset_def)
  moreover have "map_option (\<lambda>d. d ! 1)
     (fst (snd (allocator_read 0 18446744073709551615 (Some [0, 0]) 2 example_state))) = Some 0xCD"
    by (simp add: allocator_read_def init_example ex_head ex_heap memset_def Let_def case_prod_beta
        upt_rec read_step_def)
  ultimately show ?thesis
    using reachable_example_state by (simp add: ex_head)
qed

text \<open>
  Where \<open>align_size\<close> does not wrap and the id counter is below \<open>INT_MAX\<close>, the read that
  follows a successful allocation returns false and delivers 0xCD bytes, for every
  non-empty range inside \<open>[0, requested_size)\<close>.
\<close>

lemma malloc_then_read:
  assumes r: "reachable s" and sz: "sz \<noteq> 0" and small: "unat sz + 15 < 2 ^ 64"
    and cnt: "sint (g_next_id s) < 2147483647"
    and ff: "find_fit (g_head (allocator_init s)) (align_size sz) strategy = Some k"
    and n0: "n \<noteq> 0" and rng: "unat off + unat n \<le> unat sz" and buf: "unat n \<le> length d"
  shows "\<exists>d' s''. allocator_read (fst (allocator_malloc sz strategy s)) off (Some d) n
                    (snd (allocator_malloc sz strategy s)) = (False, Some d', s'') \<and>
                  length d' = length d \<and> (\<forall>j < unat n. d' ! j = 0xCD)"
proof -
  define s' where "s' = snd (allocator_malloc sz strategy s)"
  define blk where "blk = malloc_block s sz k"
  note m = allocator_malloc_id_facts [OF r sz ff cnt]
  have r': "reachable s'" unfolding s'_def by (rule r_malloc [OF r small cnt])
  have k: "k < length (g_head s')" and used: "\<not> free (g_head s' ! k)"
    and idk: "id_blk (g_head s' ! k) = fst (allocator_malloc sz strategy s)"
    using m by (simp_all add: s'_def)
  have k0: "k < length (g_head (allocator_init s))"
    using fit_facts [OF ff] by (simp add: fits_def)
  then have k1: "k < length (split_block_if_needed (g_head (allocator_init s)) k (align_size sz))"
    using split_length_ge [of "g_head (allocator_init s)" k "align_size sz"] by simp
  have b: "g_head s' ! k = blk"
    using k1 by (simp add: s'_def blk_def malloc_fit(1) [OF sz ff])
  note p = malloc_poisons_payload [OF sz small ff, folded blk_def s'_def]
  have req: "requested_size (g_head s' ! k) = sz" using p by (simp add: b)
  have rng': "unat off + unat n \<le> unat (requested_size (g_head s' ! k))" using rng by (simp add: req)
  have le: "unat sz \<le> unat (size_blk blk)" using p by (simp add: word_le_nat_alt)
  have byte: "g_heap s' (start (g_head s' ! k) + off + of_nat j) = 0xCD" if "j < unat n" for j
  proof -
    have "unat off + j < unat (size_blk blk)" using that rng le by simp
    then have "g_heap s' (start blk + of_nat (unat off + j)) = 0xCD" using p by blast
    then show ?thesis by (simp add: b add.assoc)
  qed
  obtain ok d' s'' where
    rd: "allocator_read (id_blk (g_head s' ! k)) off (Some d) n s' = (ok, Some d', s'')"
    and len: "length d' = length d"
    and bytes: "\<forall>j < unat n. d' ! j = g_heap s' (start (g_head s' ! k) + off + of_nat j)"
    and flag: "ok \<longleftrightarrow> (\<forall>j < unat n. g_heap s' (start (g_head s' ! k) + off + of_nat j) \<noteq> 0xCD \<and>
                                  g_heap s' (start (g_head s' ! k) + off + of_nat j) \<noteq> 0xDD)"
    using allocator_read_found [OF reachable_block_found [OF r' k used] n0 rng' buf] by blast
  have "0 < unat n" using n0 by (simp add: unat_gt_0)
  then have "\<not> ok" using flag byte [of 0] by auto
  then have rd': "allocator_read (fst (allocator_malloc sz strategy s)) off (Some d) n s' =
      (False, Some d', s'')"
    using rd idk by simp
  have all: "\<forall>j < unat n. d' ! j = 0xCD" using bytes byte by simp
  show ?thesis using rd' [unfolded s'_def] len all by blast
qed

text \<open>
  Claim C7.  The claim says that after every successful allocation every byte in
  \<open>[0, requested_size)\<close> of the new block is 0xCD and an immediate read returns false.
  \<open>align_size\<close> wraps for sizes above \<open>2^64 - 16\<close>: \<open>allocate(2^64 - 1)\<close> on the fresh heap
  aligns the size to 0, succeeds with id 0, and leaves a block of payload size 0 with
  requested size \<open>2^64 - 1\<close>; \<open>memset\<close> poisons no byte, and the read of the first byte
  returns true.
\<close>

theorem malloc_huge_size:
  "fst (allocator_malloc 18446744073709551615 First (initial_state 4096)) = 0 \<and>
   map fields (g_head (snd (allocator_malloc 18446744073709551615 First (initial_state 4096)))) =
     [(False, 0, 0, 18446744073709551615, True), (True, -1, 65424, 0, False)] \<and>
   start (g_head (snd (allocator_malloc 18446744073709551615 First (initial_state 4096))) ! 0) = 56 \<and>
   g_heap (snd (allocator_malloc 18446744073709551615 First (initial_state 4096))) 56 = 0 \<and>
   fst (allocator_read 0 0 (Some [0]) 1
          (snd (allocator_malloc 18446744073709551615 First (initial_state 4096))))"
proof -
  define s where "s = snd (allocator_malloc 18446744073709551615 First (initial_state 4096))"
  have al: "align_size 18446744073709551615 = 0"
    by (simp add: align_size_def max_align_def)
  have nz: "(18446744073709551615 :: size_t) \<noteq> 0" by simp
  have ff: "find_fit (g_head (allocator_init (initial_state 4096)))
              (align_size 18446744073709551615) First = Some 0"
    by (simp add: init_head al find_fit_def)
  note m = malloc_fit [OF nz ff, folded s_def]
  have blk: "malloc_block (initial_state 4096) 18446744073709551615 0 =
      \<lparr>addr = 0, id_blk = 0, start = 56, size_blk = 0, requested_size = 18446744073709551615,
       free = False, cacheable = True, cache_hits = 0\<rparr>"
    by (simp add: malloc_block_def init_head al split_block_if_needed_def Let_def
        sizeof_BlockHeader_def initial_next_id)
  have hd: "g_head s =
      [\<lparr>addr = 0, id_blk = 0, start = 56, size_blk = 0, requested_size = 18446744073709551615,
        free = False, cacheable = True, cache_hits = 0\<rparr>,
       \<lparr>addr = 56, id_blk = -1, start = 112, size_blk = 65424, requested_size = 0,
        free = True, cacheable = False, cache_hits = 0\<rparr>]"
    unfolding m(1) blk
    by (simp add: init_head al split_block_if_needed_def Let_def sizeof_BlockHeader_def)
  have ret: "fst (allocator_malloc 18446744073709551615 First (initial_state 4096)) = 0"
    unfolding malloc_fit(3) [OF nz ff] blk by (simp add: HEAP_SIZE_def initial_next_id word_sless_alt)
  have heap: "g_heap s = (\<lambda>_. 0)"
    unfolding m(4) blk by (simp add: memset_def initial_state_def)
  have i: "allocator_init s = s" by (rule allocator_init_id) (simp add: hd)
  have rd: "fst (allocator_read 0 0 (Some [0]) 1 s)"
    by (simp add: allocator_read_def i hd heap Let_def read_step_def case_prod_beta
        PATTERN_UNINITIALIZED_def PATTERN_FREED_def)
  show ?thesis
    using ret rd unfolding s_def [symmetric] by (simp add: hd heap fields_def)
qed

section \<open>The stores of the runs\<close>

text \<open>
  The heap bytes change in three places: the \<open>memset\<close> of \<open>allocator_malloc\<close>, the \<open>memset\<close> of
  \<open>allocator_free\<close> and the loop of \<open>allocator_write\<close>.  In the runs within their bounds each
  changed byte lies in the payload of the block the call works on, inside the array and on
  no block header: the headers of the program, which live in the array, keep the fields
  that the block list of the model records.
\<close>

lemma payload_positions:
  assumes c: "chain 0 bs" and k: "k < length bs"
    and a: "a - start (bs ! k) < size_blk (bs ! k)"
  shows "in_payload (bs ! k) a \<and> in_array a \<and> \<not> on_header bs a"
proof -
  define n where "n = a - start (bs ! k) + 1"
  have lt: "unat (a - start (bs ! k)) < unat (size_blk (bs ! k))"
    using a by (simp add: word_less_nat_alt)
  have "unat (size_blk (bs ! k)) < 2 ^ LENGTH(64)" by (rule unsigned_less)
  then have "unat (a - start (bs ! k)) + unat (1 :: size_t) < 2 ^ LENGTH(64)" using lt by simp
  then have "unat n = unat (a - start (bs ! k)) + unat (1 :: size_t)"
    unfolding n_def by (rule unat_add_lem [THEN iffD1])
  then have un: "unat n = unat (a - start (bs ! k)) + 1" by simp
  define b where "b = (bs ! k)\<lparr>requested_size := size_blk (bs ! k)\<rparr>"
  have c': "chain 0 (bs[k := b])"
    using chain_nth [OF c k] by (intro chain_update [OF c k]) (simp_all add: b_def)
  have k': "k < length (bs[k := b])" using k by simp
  have nth: "bs[k := b] ! k = b" using k by simp
  have fit: "requested_size (bs[k := b] ! k) \<le> size_blk (bs[k := b] ! k)"
    unfolding nth by (simp add: b_def)
  have rng: "unat (0 :: size_t) + unat n \<le> unat (requested_size (bs[k := b] ! k))"
    unfolding nth using un lt by (simp add: b_def)
  have j: "unat (a - start (bs ! k)) < unat n" using un by simp
  have e: "start (bs ! k) + 0 + of_nat (unat (a - start (bs ! k))) = a" by simp
  note p = range_in_payload [OF c' k' fit rng j, unfolded nth]
  have st: "start b = start (bs ! k)" "size_blk b = size_blk (bs ! k)" "addr b = addr (bs ! k)"
    by (simp_all add: b_def)
  have ip: "in_payload (bs ! k) a" and ia: "in_array a" and nh: "\<not> on_header (bs[k := b]) a"
    using p unfolding st e by (simp_all add: in_payload_def st)
  have "\<not> on_header bs a"
  proof
    assume "on_header bs a"
    then obtain x where x: "x \<in> set bs" "addr x \<le> a" "a - addr x < sizeof_BlockHeader"
      by (auto simp: on_header_def)
    obtain m where m: "m < length bs" "x = bs ! m" using x(1) by (auto simp: in_set_conv_nth)
    have "bs[k := b] ! m \<in> set (bs[k := b])" using m(1) by simp
    moreover have "addr (bs[k := b] ! m) = addr x" using m k by (cases "m = k") (simp_all add: st)
    ultimately have "on_header (bs[k := b]) a"
      unfolding on_header_def using x(2,3) by (intro bexI [of _ "bs[k := b] ! m"]) simp_all
    then show False using nh by simp
  qed
  then show ?thesis using ip ia by simp
qed

lemma malloc_stores_in_payload:
  assumes r: "reachable s" and sz: "sz \<noteq> 0"
    and ff: "find_fit (g_head (allocator_init s)) (align_size sz) strategy = Some k"
    and cnt: "sint (g_next_id s) < 2147483647"
    and ch: "g_heap (snd (allocator_malloc sz strategy s)) a \<noteq> g_heap s a"
  shows "in_payload (g_head (snd (allocator_malloc sz strategy s)) ! k) a \<and> in_array a \<and>
         \<not> on_header (g_head (snd (allocator_malloc sz strategy s))) a"
proof -
  define s' where "s' = snd (allocator_malloc sz strategy s)"
  have inv: "heap_inv s" by (rule reachable_heap_inv [OF r])
  have cnt': "unat (g_next_id s) < 2147483647" by (rule counter_below_max [OF inv cnt])
  have inv': "heap_inv s'" unfolding s'_def by (rule heap_inv_malloc_fit(1) [OF inv sz ff cnt'])
  note f = malloc_fit [OF sz ff, folded s'_def]
  have k0: "k < length (g_head (allocator_init s))"
    using fit_facts [OF ff] by (simp add: fits_def)
  then have k1: "k < length (split_block_if_needed (g_head (allocator_init s)) k (align_size sz))"
    using split_length_ge [of "g_head (allocator_init s)" k "align_size sz"] by simp
  then have k: "k < length (g_head s')" by (simp add: f(1))
  have blk: "g_head s' ! k = malloc_block s sz k" using k1 by (simp add: f(1))
  have c: "chain 0 (g_head s')" using inv' k by (auto simp: heap_inv_def)
  have "a - start (g_head s' ! k) < size_blk (g_head s' ! k)"
    using ch unfolding s'_def [symmetric] f(4) blk by (simp add: memset_def split: if_splits)
  from payload_positions [OF c k this] show ?thesis unfolding s'_def .
qed

lemma free_stores_in_payload:
  assumes r: "reachable s"
    and ch: "g_heap (allocator_free i s) a \<noteq> g_heap s a"
  shows "\<exists>k. find_block_by_id (g_head (allocator_init s)) i = Some k \<and>
             in_payload (g_head (allocator_init s) ! k) a \<and> in_array a \<and>
             \<not> on_header (g_head (allocator_init s)) a"
proof -
  have c: "chain 0 (g_head (allocator_init s))" by (rule heap_inv_chain [OF reachable_heap_inv [OF r]])
  obtain k where fb: "find_block_by_id (g_head (allocator_init s)) i = Some k"
    and m: "a - start (g_head (allocator_init s) ! k) < size_blk (g_head (allocator_init s) ! k)"
    using ch by (auto simp: allocator_free_def Let_def memset_def split: if_splits option.splits)
  have k: "k < length (g_head (allocator_init s))" using find_block_by_id_Some [OF fb] by simp
  from payload_positions [OF c k m] fb show ?thesis by blast
qed

lemma write_init: "allocator_write i off src n (allocator_init s) = allocator_write i off src n s"
  by (simp add: allocator_write_def allocator_init_id [OF init_head_ne])

lemma write_stores_in_payload:
  assumes r: "reachable s"
    and guard: "unat off + unat n < 2 ^ 64"
    and buf: "\<forall>b. src = Some b \<longrightarrow> unat n \<le> length b"
    and ch: "g_heap (snd (allocator_write i off src n s)) a \<noteq> g_heap s a"
  shows "\<exists>k. find_block_by_id (g_head (allocator_init s)) i = Some k \<and>
             in_payload (g_head (allocator_init s) ! k) a \<and> in_array a \<and>
             \<not> on_header (g_head (allocator_init s)) a"
proof -
  define t where "t = allocator_init s"
  have rt: "reachable t" unfolding t_def using r_dump [OF r] by (simp add: allocator_dump_def)
  have ht: "g_heap t = g_heap s" by (simp add: t_def)
  have w: "allocator_write i off src n s = allocator_write i off src n t"
    unfolding t_def by (rule write_init [symmetric])
  have ch': "g_heap (snd (allocator_write i off src n t)) a \<noteq> g_heap t a"
    using ch by (simp add: w ht)
  have it: "allocator_init t = t" unfolding t_def by (rule allocator_init_id [OF init_head_ne])
  have nrej: "\<not> (i <s 0 \<or> src = None \<or> n = 0 \<or> find_block_by_id (g_head (allocator_init t)) i = None \<or>
       (\<exists>k. find_block_by_id (g_head (allocator_init t)) i = Some k \<and>
        requested_size (g_head (allocator_init t) ! k) < off + n))"
  proof
    assume "i <s 0 \<or> src = None \<or> n = 0 \<or> find_block_by_id (g_head (allocator_init t)) i = None \<or>
       (\<exists>k. find_block_by_id (g_head (allocator_init t)) i = Some k \<and>
        requested_size (g_head (allocator_init t) ! k) < off + n)"
    then have "g_heap (snd (allocator_write i off src n t)) = g_heap t"
      by (rule allocator_write_rejects [THEN conjunct2])
    then show False using ch' by simp
  qed
  then obtain b k where src: "src = Some b" and i0: "\<not> i <s 0" and n0: "n \<noteq> 0"
    and fb: "find_block_by_id (g_head t) i = Some k"
    and le: "\<not> requested_size (g_head t ! k) < off + n"
    unfolding it by auto
  have "unat off + unat n < 2 ^ LENGTH(64)" using guard by simp
  then have "unat (off + n) = unat off + unat n" by (rule unat_add_lem [THEN iffD1])
  then have rng: "unat off + unat n \<le> unat (requested_size (g_head t ! k))"
    using le by (simp add: word_less_nat_alt)
  have bl: "unat n \<le> length b" using buf src by simp
  note wf = allocator_write_found [OF fb i0 n0 rng bl]
  have "\<not> (\<forall>j < unat n. a \<noteq> start (g_head t ! k) + off + of_nat j)"
    using wf ch' unfolding src by blast
  then obtain j where j: "j < unat n" and a: "a = start (g_head t ! k) + off + of_nat j" by blast
  note fk = find_block_by_id_Some [OF fb]
  have ok: "chain 0 (g_head t)" "requested_size (g_head t ! k) \<le> size_blk (g_head t ! k)"
    using reachable_block_ok [OF rt, of k] fk by simp_all
  from range_in_payload [OF ok(1) _ ok(2) rng j] fk fb show ?thesis
    unfolding a t_def by blast
qed

text \<open>
  The two inputs outside these bounds that the statements above evaluate.  The write with
  the wrapping offset stores its first byte at position 55, the last byte of the header of
  block 0.  The read after the allocation of \<open>2^64 - 1\<close> bytes reads position 56, the first
  byte of the header of the second block (the low byte of its id -1 in the program), which
  is outside the empty payload of block 0; the heap bytes of the model do not hold the
  headers and have the byte 0 there.
\<close>

lemma huge_head:
  "g_head (snd (allocator_malloc 18446744073709551615 First (initial_state 4096))) =
      [\<lparr>addr = 0, id_blk = 0, start = 56, size_blk = 0, requested_size = 18446744073709551615,
        free = False, cacheable = True, cache_hits = 0\<rparr>,
       \<lparr>addr = 56, id_blk = -1, start = 112, size_blk = 65424, requested_size = 0,
        free = True, cacheable = False, cache_hits = 0\<rparr>]"
proof -
  have al: "align_size 18446744073709551615 = 0"
    by (simp add: align_size_def max_align_def)
  have nz: "(18446744073709551615 :: size_t) \<noteq> 0" by simp
  have ff: "find_fit (g_head (allocator_init (initial_state 4096)))
              (align_size 18446744073709551615) First = Some 0"
    by (simp add: init_head al find_fit_def)
  have blk: "malloc_block (initial_state 4096) 18446744073709551615 0 =
      \<lparr>addr = 0, id_blk = 0, start = 56, size_blk = 0, requested_size = 18446744073709551615,
       free = False, cacheable = True, cache_hits = 0\<rparr>"
    by (simp add: malloc_block_def init_head al split_block_if_needed_def Let_def
        sizeof_BlockHeader_def initial_next_id)
  show ?thesis
    unfolding malloc_fit(1) [OF nz ff] blk
    by (simp add: init_head al split_block_if_needed_def Let_def sizeof_BlockHeader_def)
qed

lemma huge_read_on_header:
  "on_header (g_head (snd (allocator_malloc 18446744073709551615 First (initial_state 4096)))) 56 \<and>
   \<not> in_payload (g_head (snd (allocator_malloc 18446744073709551615 First (initial_state 4096))) ! 0) 56"
  unfolding huge_head by (simp add: on_header_def in_payload_def sizeof_BlockHeader_def)

lemma wrapped_write_on_header:
  "start (g_head example_state ! 0) + 18446744073709551615 + of_nat 0 = 55 \<and>
   on_header (g_head example_state) 55 \<and> \<not> in_payload (g_head example_state ! 0) 55"
  by (simp add: ex_head on_header_def in_payload_def sizeof_BlockHeader_def)

end
